theory Spec2Isabelle
  imports Main "HOL-Library.Signed_Division"
begin

section \<open>Host facilities used by the codec\<close>

text \<open>
  The codec receives and returns JavaScript \<^verbatim>\<open>Date\<close> objects.  A valid \<^verbatim>\<open>Date\<close> is its
  time value: an integral number of milliseconds since 1970-01-01T00:00:00Z.  The three host
  operations the codec calls are modelled after ECMA-262 (section "Date Objects"):
  \<^verbatim>\<open>DayFromYear\<close>, \<^verbatim>\<open>TimeFromYear\<close>, \<^verbatim>\<open>YearFromTime\<close> (behind \<^verbatim>\<open>getUTCFullYear\<close>),
  \<^verbatim>\<open>TimeClip\<close> and \<^verbatim>\<open>Date.UTC(y, 0, 1)\<close>.  A time value that \<^verbatim>\<open>TimeClip\<close> refuses is
  \<^verbatim>\<open>NaN\<close>, here \<open>None\<close>; a \<^verbatim>\<open>Date\<close> holding it is an invalid date.  BigInt division and
  remainder truncate towards zero; they are \<open>sdiv\<close> and \<open>smod\<close>.
\<close>

definition msPerDay :: int where
  "msPerDay = 86400000"

definition DayFromYear :: "int \<Rightarrow> int" where
  "DayFromYear y =
     365 * (y - 1970) + (y - 1969) div 4 - (y - 1901) div 100 + (y - 1601) div 400"

definition TimeFromYear :: "int \<Rightarrow> int" where
  "TimeFromYear y = msPerDay * DayFromYear y"

text \<open>
  ECMA-262 defines \<^verbatim>\<open>YearFromTime(t)\<close> as the largest year \<open>y\<close> with
  \<open>TimeFromYear y \<le> t\<close>.  The executable version below starts from the estimate given by the
  mean Gregorian year (146097 days in 400 years) and corrects it by at most one year;
  \<open>getUTCFullYear_lower\<close>, \<open>getUTCFullYear_upper\<close> and \<open>getUTCFullYear_largest\<close> show
  that it is that largest year.
\<close>

definition getUTCFullYear :: "int \<Rightarrow> int" where
  "getUTCFullYear t =
     (let day = t div msPerDay;
          y0 = 1970 + (400 * day) div 146097
      in if DayFromYear (y0 + 1) \<le> day then y0 + 1
         else if DayFromYear y0 \<le> day then y0
         else y0 - 1)"

text \<open>
  \<^verbatim>\<open>TimeClip\<close>: a time value is at most 8.64e15 milliseconds away from the epoch.
\<close>

definition TimeClip :: "int \<Rightarrow> int option" where
  "TimeClip t = (if \<bar>t\<bar> > 8640000000000000 then None else Some t)"

text \<open>
  \<^verbatim>\<open>Date.UTC(y, 0, 1, 0, 0, 0, 0)\<close>: midnight of January 1.  A year argument from 0 to 99 is
  read as 1900 + y (ECMA-262, \<^verbatim>\<open>Date.UTC\<close> step "if 0 \<le> yi \<le> 99, let yr be 1900 + yi"),
  and the result is clipped: it is \<^verbatim>\<open>NaN\<close> when that midnight is not a time value, as for the
  year -271821.
\<close>

definition Date_UTC :: "int \<Rightarrow> int option" where
  "Date_UTC y = TimeClip (TimeFromYear (if 0 \<le> y \<and> y \<le> 99 then 1900 + y else y))"

subsection \<open>Strings\<close>

text \<open>
  \<^verbatim>\<open>String(n)\<close> of an integral Number or a BigInt is its decimal numeral, with a leading
  minus sign when negative; template literals \<^verbatim>\<open>${n}\<close> use the same conversion.
\<close>

definition digit_char :: "nat \<Rightarrow> char" where
  "digit_char n = char_of (48 + n)"

fun digits_nat :: "nat \<Rightarrow> string" where
  "digits_nat n = (if n < 10 then [digit_char n] else digits_nat (n div 10) @ [digit_char (n mod 10)])"

declare digits_nat.simps [simp del]

definition String_int :: "int \<Rightarrow> string" where
  "String_int i = (if i < 0 then CHR ''-'' # digits_nat (nat (- i)) else digits_nat (nat i))"

definition padStart :: "nat \<Rightarrow> char \<Rightarrow> string \<Rightarrow> string" where
  "padStart n c s = replicate (n - length s) c @ s"

definition String_fromCharCode :: "int \<Rightarrow> string" where
  "String_fromCharCode n = [char_of n]"

definition charCodeAt0 :: "string \<Rightarrow> int" where
  "charCodeAt0 s = of_char (hd s)"

text \<open>\<^verbatim>\<open>Number(s)\<close> and \<^verbatim>\<open>BigInt(s)\<close> on a string of decimal digits.\<close>

definition Number_digits :: "string \<Rightarrow> int" where
  "Number_digits s = foldl (\<lambda>acc c. 10 * acc + (of_char c - 48)) 0 s"

subsection \<open>The canonical regular expression\<close>

text \<open>
  Both decoders match \<^verbatim>\<open>/^(\d{4})_([A-Z])(\d)([A-Z])(\d)_([0-9]{6})$/\<close>.  The expression is a
  fixed sequence of character classes, anchored at both ends, so a string matches when it has
  one character per class, each in its class.
\<close>

datatype char_class = Digit | Upper | Lit char

fun in_class :: "char_class \<Rightarrow> char \<Rightarrow> bool" where
  "in_class Digit c = (48 \<le> (of_char c :: nat) \<and> (of_char c :: nat) \<le> 57)"
| "in_class Upper c = (65 \<le> (of_char c :: nat) \<and> (of_char c :: nat) \<le> 90)"
| "in_class (Lit l) c = (c = l)"

fun regex_match :: "char_class list \<Rightarrow> string \<Rightarrow> bool" where
  "regex_match [] [] = True"
| "regex_match (k # ks) (c # cs) = (in_class k c \<and> regex_match ks cs)"
| "regex_match _ _ = False"

definition canonical_regex :: "char_class list" where
  "canonical_regex =
     [Digit, Digit, Digit, Digit, Lit CHR ''_'', Upper, Digit, Upper, Digit, Lit CHR ''_'',
      Digit, Digit, Digit, Digit, Digit, Digit]"

text \<open>The six capture groups of a successful match.\<close>

definition canonical_groups :: "string \<Rightarrow> string \<times> string \<times> string \<times> string \<times> string \<times> string" where
  "canonical_groups s =
     (take 4 s, take 1 (drop 5 s), take 1 (drop 6 s), take 1 (drop 7 s), take 1 (drop 8 s),
      drop 10 s)"

section \<open>The codec\<close>

text \<open>
  \<open>Error\<close> carries the message of a \<^verbatim>\<open>throw new Error(...)\<close> of the codec.
  \<open>RangeError\<close> is what \<^verbatim>\<open>BigInt(NaN)\<close> throws; its message is the host's.
\<close>

datatype error = Error string | RangeError

record alphadec =
  canonical :: string
  year :: int
  period :: int
  arc :: int
  bar :: int
  beat :: int
  msOffsetInBeat :: int
  periodLetter :: string
  barLetter :: string
  readable :: string
  arcStartMsInYear :: int
  arcEndMsInYear :: int

definition SCALER_N :: int where
  "SCALER_N = 1000000"

definition isLeap :: "int \<Rightarrow> bool" where
  "isLeap y = ((y smod 4 = 0 \<and> y smod 100 \<noteq> 0) \<or> y smod 400 = 0)"

subsection \<open>The beat-grid codec (the unnamed source file \<^verbatim>\<open>part_000\<close>)\<close>

definition toBase26_grid :: "int \<Rightarrow> error + string" where
  "toBase26_grid n =
     (if n < 0 \<or> n > 25 then Inl (Error ''Invalid index for Base26.'')
      else Inr (String_fromCharCode (65 + n)))"

definition encode_grid :: "int \<Rightarrow> error + alphadec" where
  "encode_grid d =
     (let y = getUTCFullYear d;
          daysInYear = (if isLeap y then 366 else 365);
          BEATS_IN_YEAR = 67600;
          yearTotalMs = daysInYear * 86400000
      in case Date_UTC y of
           None \<Rightarrow> Inl RangeError
         | Some startOfYearMs \<Rightarrow>
     (let msSinceYearStart = d - startOfYearMs;
          totalBeatIndex = (msSinceYearStart * BEATS_IN_YEAR) sdiv yearTotalMs;
          beatStartScaledMs = (yearTotalMs * totalBeatIndex * SCALER_N) sdiv BEATS_IN_YEAR;
          totalScaledMs = msSinceYearStart * SCALER_N;
          scaledMsOffset = totalScaledMs - beatStartScaledMs;
          msOffset = scaledMsOffset sdiv SCALER_N;
          p_idx = totalBeatIndex sdiv 2600;
          remainingBeats1 = totalBeatIndex smod 2600;
          a_val = remainingBeats1 sdiv 260;
          remainingBeats2 = remainingBeats1 smod 260;
          b_idx = remainingBeats2 sdiv 10;
          t_val = remainingBeats2 smod 10;
          currentArcStartBeats = p_idx * 2600 + a_val * 260;
          arcStartScaledMs = (yearTotalMs * currentArcStartBeats * SCALER_N) sdiv BEATS_IN_YEAR;
          arcEndScaledMs =
            (yearTotalMs * (currentArcStartBeats + 260) * SCALER_N) sdiv BEATS_IN_YEAR
      in case toBase26_grid p_idx of
           Inl e \<Rightarrow> Inl e
         | Inr pLetter \<Rightarrow>
             (case toBase26_grid b_idx of
                Inl e \<Rightarrow> Inl e
              | Inr bLetter \<Rightarrow>
                  Inr \<lparr> canonical =
                          String_int y @ ''_'' @ pLetter @ String_int a_val @ bLetter
                            @ String_int t_val @ ''_'' @ padStart 6 CHR ''0'' (String_int msOffset),
                        year = y,
                        period = p_idx,
                        arc = a_val,
                        bar = b_idx,
                        beat = t_val,
                        msOffsetInBeat = msOffset,
                        periodLetter = pLetter,
                        barLetter = bLetter,
                        readable = pLetter @ String_int a_val @ '':'' @ bLetter @ String_int t_val,
                        arcStartMsInYear = arcStartScaledMs sdiv SCALER_N,
                        arcEndMsInYear = arcEndScaledMs sdiv SCALER_N \<rparr>)))"

definition decode_grid :: "string \<Rightarrow> error + int option" where
  "decode_grid canon =
     (if \<not> regex_match canonical_regex canon
      then Inl (Error (''Bad AlphaDec canonical string: '' @ [char_of (34::nat)] @ canon
                         @ [char_of (34::nat)]))
      else
        (case canonical_groups canon of (yStr, pLtr, aStr, bLtr, tStr, msStr) \<Rightarrow>
           (let y = Number_digits yStr;
                daysInYear = (if isLeap y then 366 else 365);
                BEATS_IN_YEAR = 67600;
                yearTotalScaledMs = daysInYear * 86400000 * SCALER_N;
                pIndex = charCodeAt0 pLtr - 65;
                totalBeats = pIndex * 2600 + Number_digits aStr * 260
                               + (charCodeAt0 bLtr - 65) * 10 + Number_digits tStr;
                beatStartScaledMs = (yearTotalScaledMs * totalBeats) sdiv BEATS_IN_YEAR;
                totalScaledMs = beatStartScaledMs + Number_digits msStr * SCALER_N;
                totalMsSinceYearStart = totalScaledMs sdiv SCALER_N;
                startOfYearMs = Date_UTC y
            in Inr (case startOfYearMs of
                      None \<Rightarrow> None
                    | Some s \<Rightarrow> TimeClip (s + totalMsSinceYearStart)))))"

subsection \<open>The division-cascade codec (\<^verbatim>\<open>src/lib/alphadec.js\<close>)\<close>

definition toBase26_lib :: "int \<Rightarrow> error + string" where
  "toBase26_lib n =
     (if n < 0 \<or> n > 25 then Inl (Error ''Invalid index for Base26 single char conversion.'')
      else Inr (String_fromCharCode (65 + n)))"

definition encode_lib :: "int \<Rightarrow> error + alphadec" where
  "encode_lib d =
     (let y = getUTCFullYear d
      in case Date_UTC y of
           None \<Rightarrow> Inl RangeError
         | Some startOfYearMs \<Rightarrow>
     (let msSinceYearStart = d - startOfYearMs;
          totalScaledMsSinceYearStart = msSinceYearStart * SCALER_N;
          daysInYear = (if isLeap y then 366 else 365);
          yearTotalScaledMs = daysInYear * 86400000 * SCALER_N;
          periodSizeScaled = yearTotalScaledMs sdiv 26;
          arcSizeScaled = periodSizeScaled sdiv 10;
          barSizeScaled = arcSizeScaled sdiv 26;
          beatSizeScaled = barSizeScaled sdiv 10;
          remainingScaledMs0 = totalScaledMsSinceYearStart;
          p_idx = remainingScaledMs0 sdiv periodSizeScaled;
          remainingScaledMs1 = remainingScaledMs0 - p_idx * periodSizeScaled;
          a_val = remainingScaledMs1 sdiv arcSizeScaled;
          remainingScaledMs2 = remainingScaledMs1 - a_val * arcSizeScaled;
          currentArcStartScaledMs = p_idx * periodSizeScaled + a_val * arcSizeScaled;
          b_idx = remainingScaledMs2 sdiv barSizeScaled;
          remainingScaledMs3 = remainingScaledMs2 - b_idx * barSizeScaled;
          t_val = remainingScaledMs3 sdiv beatSizeScaled;
          remainingScaledMs4 = remainingScaledMs3 - t_val * beatSizeScaled;
          msOffset = remainingScaledMs4 sdiv SCALER_N
      in case toBase26_lib p_idx of
           Inl e \<Rightarrow> Inl e
         | Inr pLetter \<Rightarrow>
             (case toBase26_lib b_idx of
                Inl e \<Rightarrow> Inl e
              | Inr bLetter \<Rightarrow>
                  Inr \<lparr> canonical =
                          String_int y @ ''_'' @ pLetter @ String_int a_val @ bLetter
                            @ String_int t_val @ ''_'' @ padStart 6 CHR ''0'' (String_int msOffset),
                        year = y,
                        period = p_idx,
                        arc = a_val,
                        bar = b_idx,
                        beat = t_val,
                        msOffsetInBeat = msOffset,
                        periodLetter = pLetter,
                        barLetter = bLetter,
                        readable = pLetter @ String_int a_val @ '':'' @ bLetter @ String_int t_val,
                        arcStartMsInYear = currentArcStartScaledMs sdiv SCALER_N,
                        arcEndMsInYear =
                          (currentArcStartScaledMs + arcSizeScaled) sdiv SCALER_N \<rparr>)))"

definition decode_lib :: "string \<Rightarrow> error + int option" where
  "decode_lib canon =
     (if \<not> regex_match canonical_regex canon
      then Inl (Error (''Bad AlphaDec canonical string (format YYYY_PaBt_MMMMMM): ''
                         @ [char_of (34::nat)] @ canon @ [char_of (34::nat)]))
      else
        (case canonical_groups canon of (yyyyStr, pLtr, arcStr, barLtr, beatStr, msOffsetStr) \<Rightarrow>
           (let y = Number_digits yyyyStr;
                pIndex = charCodeAt0 pLtr - 65;
                arcVal = Number_digits arcStr;
                barIndex = charCodeAt0 barLtr - 65;
                beatVal = Number_digits beatStr;
                msOffsetInBeat_input = Number_digits msOffsetStr;
                daysInYear = (if isLeap y then 366 else 365);
                yearTotalScaledMs = daysInYear * 86400000 * SCALER_N;
                periodSizeScaled = yearTotalScaledMs sdiv 26;
                arcSizeScaled = periodSizeScaled sdiv 10;
                barSizeScaled = arcSizeScaled sdiv 26;
                beatSizeScaled = barSizeScaled sdiv 10;
                totalScaledMsFromUnits =
                  pIndex * periodSizeScaled + arcVal * arcSizeScaled + barIndex * barSizeScaled
                    + beatVal * beatSizeScaled + msOffsetInBeat_input * SCALER_N;
                totalMsSinceYearStart_final = totalScaledMsFromUnits sdiv SCALER_N;
                startOfYearMs = Date_UTC y;
                targetTimestampMs =
                  (case startOfYearMs of
                     None \<Rightarrow> None
                   | Some s \<Rightarrow> Some (s + totalMsSinceYearStart_final))
            in Inr (case targetTimestampMs of None \<Rightarrow> None | Some v \<Rightarrow> TimeClip v))))"

section \<open>Notions used in the statements\<close>

text \<open>
  The midnight that \<^verbatim>\<open>Date.UTC(y, 0, 1)\<close> denotes, before it is clipped; the length of the
  year in milliseconds and the offset of an instant in its year, as both encoders compute
  them; and the beat index of the grid codec.
\<close>

definition yearStart :: "int \<Rightarrow> int" where
  "yearStart y = TimeFromYear (if 0 \<le> y \<and> y \<le> 99 then 1900 + y else y)"

definition yearTotalMs :: "int \<Rightarrow> int" where
  "yearTotalMs y = (if isLeap y then 366 else 365) * 86400000"

definition msSinceYearStart :: "int \<Rightarrow> int" where
  "msSinceYearStart d = d - yearStart (getUTCFullYear d)"

definition totalBeatIndex :: "int \<Rightarrow> int" where
  "totalBeatIndex d = (msSinceYearStart d * 67600) sdiv yearTotalMs (getUTCFullYear d)"

text \<open>
  The canonical format has a four-digit year field and the year is written unpadded, so the
  instants the format covers are those of the years 1000 to 9999.
\<close>

definition valid_instant :: "int \<Rightarrow> bool" where
  "valid_instant d = (1000 \<le> getUTCFullYear d \<and> getUTCFullYear d \<le> 9999)"

text \<open>The comparison \<^verbatim>\<open>s < t\<close> of two JavaScript strings: lexicographic on code units.\<close>

fun str_less :: "string \<Rightarrow> string \<Rightarrow> bool" where
  "str_less [] [] = False"
| "str_less [] (y # ys) = True"
| "str_less (x # xs) [] = False"
| "str_less (x # xs) (y # ys) =
     ((of_char x :: nat) < of_char y \<or> (x = y \<and> str_less xs ys))"

text \<open>The numeral of \<open>n\<close> in exactly \<open>w\<close> decimal digits (the low \<open>w\<close> digits).\<close>

fun fixed_digits :: "nat \<Rightarrow> nat \<Rightarrow> string" where
  "fixed_digits 0 n = []"
| "fixed_digits (Suc w) n = fixed_digits w (n div 10) @ [digit_char (n mod 10)]"

text \<open>The canonical string both encoders build from the year and the five fields.\<close>

definition canon_string :: "int \<Rightarrow> int \<Rightarrow> int \<Rightarrow> int \<Rightarrow> int \<Rightarrow> int \<Rightarrow> string" where
  "canon_string y p a b t off =
     String_int y @ ''_'' @ String_fromCharCode (65 + p) @ String_int a
       @ String_fromCharCode (65 + b) @ String_int t @ ''_''
       @ padStart 6 CHR ''0'' (String_int off)"

text \<open>The scaled start of beat \<open>k\<close> in a year of \<open>Y\<close> milliseconds, as the grid codec computes it.\<close>

definition beatStartScaled :: "int \<Rightarrow> int \<Rightarrow> int" where
  "beatStartScaled Y k = (Y * k * 1000000) div 67600"

text \<open>The mixed-radix digits of a beat index, and the offset in the beat, as the grid encoder computes them.\<close>

definition beat_period :: "int \<Rightarrow> int" where
  "beat_period k = k div 2600"

definition beat_arc :: "int \<Rightarrow> int" where
  "beat_arc k = (k mod 2600) div 260"

definition beat_bar :: "int \<Rightarrow> int" where
  "beat_bar k = ((k mod 2600) mod 260) div 10"

definition beat_digit :: "int \<Rightarrow> int" where
  "beat_digit k = ((k mod 2600) mod 260) mod 10"

definition msOffset_grid :: "int \<Rightarrow> int \<Rightarrow> int" where
  "msOffset_grid Y ms = (ms * 1000000 - beatStartScaled Y ((ms * 67600) div Y)) div 1000000"

text \<open>
  The four unit sizes of the division cascade in a year of \<open>Y\<close> milliseconds, and the scaled
  start of beat \<open>k\<close> as the cascade decoder adds it up.
\<close>

definition periodSizeScaled :: "int \<Rightarrow> int" where
  "periodSizeScaled Y = (Y * 1000000) div 26"

definition arcSizeScaled :: "int \<Rightarrow> int" where
  "arcSizeScaled Y = periodSizeScaled Y div 10"

definition barSizeScaled :: "int \<Rightarrow> int" where
  "barSizeScaled Y = arcSizeScaled Y div 26"

definition beatSizeScaled :: "int \<Rightarrow> int" where
  "beatSizeScaled Y = barSizeScaled Y div 10"

definition unitsScaled_lib :: "int \<Rightarrow> int \<Rightarrow> int \<Rightarrow> int \<Rightarrow> int \<Rightarrow> int" where
  "unitsScaled_lib Y p a b t =
     p * periodSizeScaled Y + a * arcSizeScaled Y + b * barSizeScaled Y + t * beatSizeScaled Y"

definition beatStartScaled_lib :: "int \<Rightarrow> int \<Rightarrow> int" where
  "beatStartScaled_lib Y k =
     unitsScaled_lib Y (beat_period k) (beat_arc k) (beat_bar k) (beat_digit k)"

text \<open>The round trip \<^verbatim>\<open>decode(encode(d).canonical)\<close> of each codec.\<close>

definition decode_encode_grid :: "int \<Rightarrow> error + int option" where
  "decode_encode_grid d =
     (case encode_grid d of Inl e \<Rightarrow> Inl e | Inr r \<Rightarrow> decode_grid (canonical r))"

definition decode_encode_lib :: "int \<Rightarrow> error + int option" where
  "decode_encode_lib d =
     (case encode_lib d of Inl e \<Rightarrow> Inl e | Inr r \<Rightarrow> decode_lib (canonical r))"

section \<open>The host calendar\<close>

lemma smod_eq_0_iff: "0 < n \<Longrightarrow> (y smod n = 0) = (y mod n = (0::int))"
proof -
  assume "0 < n"
  have "(y smod n = 0) = (\<bar>y\<bar> mod \<bar>n\<bar> = 0)"
    by (auto simp: signed_modulo_int_def sgn_if)
  also have "\<dots> = (\<bar>n\<bar> dvd \<bar>y\<bar>)" by (simp add: mod_eq_0_iff_dvd)
  also have "\<dots> = (n dvd y)" by simp
  also have "\<dots> = (y mod n = 0)" by (simp add: mod_eq_0_iff_dvd)
  finally show ?thesis .
qed

lemma isLeap_mod: "isLeap y = ((y mod 4 = 0 \<and> y mod 100 \<noteq> 0) \<or> y mod 400 = 0)"
  by (simp add: isLeap_def smod_eq_0_iff)

lemma div_succ_int:
  fixes a n :: int
  assumes "0 < n"
  shows "(a + 1) div n = a div n + (if (a + 1) mod n = 0 then 1 else 0)"
proof -
  have a: "a = n * (a div n) + a mod n" by simp
  have r: "0 \<le> a mod n" "a mod n < n" using assms by simp_all
  show ?thesis
  proof (cases "a mod n = n - 1")
    case True
    then have "a + 1 = n * (a div n) + n" using a by linarith
    then have "a + 1 = n * (a div n + 1)" by (simp add: algebra_simps)
    then have e: "(a + 1) div n = a div n + 1" "(a + 1) mod n = 0"
      using assms by (metis nonzero_mult_div_cancel_left less_irrefl, metis mod_mult_self1_is_0)
    then show ?thesis by simp
  next
    case False
    then have lt: "a mod n + 1 < n" using r by linarith
    have "a + 1 = n * (a div n) + (a mod n + 1)" using a by linarith
    moreover have "0 \<le> a mod n + 1" using r by linarith
    ultimately have e: "(a + 1) div n = a div n" "(a + 1) mod n = a mod n + 1"
      using lt by (metis div_pos_pos_trivial div_mult_self2 add.commute add.right_neutral assms less_irrefl mult.commute,
                   metis mod_pos_pos_trivial mod_mult_self2 add.commute mult.commute)
    then show ?thesis using r by simp
  qed
qed

lemma DayFromYear_step:
  "DayFromYear (y + 1) = DayFromYear y + (if isLeap y then 366 else 365)"
proof -
  have m4: "(y - 1968) mod 4 = y mod 4" using mod_mult_self1 [of y "-492" 4] by simp
  have m100: "(y - 1900) mod 100 = y mod 100" using mod_mult_self1 [of y "-19" 100] by simp
  have m400: "(y - 1600) mod 400 = y mod 400" using mod_mult_self1 [of y "-4" 400] by simp
  have d4: "(y + 1 - 1969) div 4 = (y - 1969) div 4 + (if y mod 4 = 0 then 1 else 0)"
    using div_succ_int [of 4 "y - 1969"] m4 by (simp add: algebra_simps)
  have d100: "(y + 1 - 1901) div 100 = (y - 1901) div 100 + (if y mod 100 = 0 then 1 else 0)"
    using div_succ_int [of 100 "y - 1901"] m100 by (simp add: algebra_simps)
  have d400: "(y + 1 - 1601) div 400 = (y - 1601) div 400 + (if y mod 400 = 0 then 1 else 0)"
    using div_succ_int [of 400 "y - 1601"] m400 by (simp add: algebra_simps)
  have i1: "y mod 400 = 0 \<Longrightarrow> y mod 100 = 0" by (metis mod_mod_cancel dvd_triv_left mod_0 mult.commute numeral_times_numeral semiring_norm(12,13) num_double  dvd_def)
  have i2: "y mod 100 = 0 \<Longrightarrow> y mod 4 = 0" by presburger
  show ?thesis
    unfolding DayFromYear_def isLeap_mod d4 d100 d400 using i1 i2 by auto
qed

lemma DayFromYear_approx:
  "146097 * (y - 1970) - 506 \<le> 400 * DayFromYear y"
  "400 * DayFromYear y \<le> 146097 * (y - 1970) + 589"
proof -
  define q4 r4 q100 r100 q400 r400 where
    "q4 = (y - 1969) div 4" and "r4 = (y - 1969) mod 4" and
    "q100 = (y - 1901) div 100" and "r100 = (y - 1901) mod 100" and
    "q400 = (y - 1601) div 400" and "r400 = (y - 1601) mod 400"
  have a4: "4 * q4 + r4 = y - 1969" by (simp add: q4_def r4_def)
  have a100: "100 * q100 + r100 = y - 1901" by (simp add: q100_def r100_def)
  have a400: "400 * q400 + r400 = y - 1601" by (simp add: q400_def r400_def)
  have r4: "0 \<le> r4" "r4 < 4" by (simp_all add: r4_def)
  have r100: "0 \<le> r100" "r100 < 100" by (simp_all add: r100_def)
  have r400: "0 \<le> r400" "r400 < 400" by (simp_all add: r400_def)
  have D: "DayFromYear y = 365 * (y - 1970) + q4 - q100 + q400"
    by (simp add: DayFromYear_def q4_def q100_def q400_def)
  show "146097 * (y - 1970) - 506 \<le> 400 * DayFromYear y"
    unfolding D using a4 a100 a400 r4 r100 r400 by (smt (verit))
  show "400 * DayFromYear y \<le> 146097 * (y - 1970) + 589"
    unfolding D using a4 a100 a400 r4 r100 r400 by (smt (verit))
qed


lemma DayFromYear_mono_nat: "DayFromYear y \<le> DayFromYear (y + int n)"
proof (induction n)
  case 0
  show ?case by simp
next
  case (Suc n)
  have e: "y + int (Suc n) = y + int n + 1" by simp
  have "DayFromYear (y + int n) \<le> DayFromYear (y + int n + 1)"
    unfolding DayFromYear_step by simp
  then show ?case unfolding e using Suc by linarith
qed

lemma DayFromYear_mono: "y \<le> z \<Longrightarrow> DayFromYear y \<le> DayFromYear z"
  using DayFromYear_mono_nat [of y "nat (z - y)"] by simp

lemma DayFromYear_strict: "y < z \<Longrightarrow> DayFromYear y < DayFromYear z"
proof -
  assume "y < z"
  then have "y + 1 \<le> z" by simp
  then have "DayFromYear (y + 1) \<le> DayFromYear z" by (rule DayFromYear_mono)
  moreover have "DayFromYear y < DayFromYear (y + 1)" by (simp add: DayFromYear_step)
  ultimately show ?thesis by linarith
qed

lemma getUTCFullYear_day:
  "DayFromYear (getUTCFullYear t) \<le> t div msPerDay"
  "t div msPerDay < DayFromYear (getUTCFullYear t + 1)"
proof -
  define day where "day = t div msPerDay"
  define y0 where "y0 = 1970 + (400 * day) div 146097"
  define q where "q = (400 * day) div 146097"
  define r where "r = (400 * day) mod 146097"
  have qr: "146097 * q + r = 400 * day" "0 \<le> r" "r < 146097"
    by (simp_all add: q_def r_def)
  have y0: "y0 = 1970 + q" by (simp add: y0_def q_def)
  have lo: "400 * DayFromYear (y0 - 1) \<le> 146097 * (y0 - 1 - 1970) + 589"
    by (rule DayFromYear_approx)
  have hi: "146097 * (y0 + 2 - 1970) - 506 \<le> 400 * DayFromYear (y0 + 2)"
    by (rule DayFromYear_approx)
  have A: "DayFromYear (y0 - 1) \<le> day" using lo qr y0 by (smt (z3))
  have B: "day < DayFromYear (y0 + 2)" using hi qr y0 by (smt (z3))
  have G: "getUTCFullYear t =
      (if DayFromYear (y0 + 1) \<le> day then y0 + 1 else if DayFromYear y0 \<le> day then y0 else y0 - 1)"
    by (simp add: getUTCFullYear_def Let_def day_def y0_def)
  show "DayFromYear (getUTCFullYear t) \<le> t div msPerDay"
    unfolding G day_def [symmetric] using A by simp
  have e: "y0 + 1 + 1 = y0 + 2" "y0 - 1 + 1 = y0" by simp_all
  show "t div msPerDay < DayFromYear (getUTCFullYear t + 1)"
    unfolding G day_def [symmetric] using B by (simp add: e)
qed

lemma getUTCFullYear_lower: "TimeFromYear (getUTCFullYear t) \<le> t"
proof -
  have "msPerDay * (t div msPerDay) + t mod msPerDay = t" by simp
  moreover have "0 \<le> t mod msPerDay" by (simp add: msPerDay_def)
  moreover have "msPerDay * DayFromYear (getUTCFullYear t) \<le> msPerDay * (t div msPerDay)"
    using getUTCFullYear_day(1) [of t] by (simp add: msPerDay_def)
  ultimately show ?thesis unfolding TimeFromYear_def by linarith
qed

lemma getUTCFullYear_upper: "t < TimeFromYear (getUTCFullYear t + 1)"
proof -
  have "msPerDay * (t div msPerDay) + t mod msPerDay = t" by simp
  moreover have "t mod msPerDay < msPerDay" by (simp add: msPerDay_def)
  moreover have "t div msPerDay + 1 \<le> DayFromYear (getUTCFullYear t + 1)"
    using getUTCFullYear_day(2) [of t] by simp
  then have "msPerDay * (t div msPerDay + 1) \<le> msPerDay * DayFromYear (getUTCFullYear t + 1)"
    by (simp add: msPerDay_def)
  then have "msPerDay * (t div msPerDay) + msPerDay \<le> msPerDay * DayFromYear (getUTCFullYear t + 1)"
    by (simp add: algebra_simps)
  ultimately show ?thesis unfolding TimeFromYear_def by linarith
qed

lemma getUTCFullYear_largest: "TimeFromYear y \<le> t \<Longrightarrow> y \<le> getUTCFullYear t"
proof (rule ccontr)
  assume le: "TimeFromYear y \<le> t" and "\<not> y \<le> getUTCFullYear t"
  then have "getUTCFullYear t + 1 \<le> y" by simp
  then have "DayFromYear (getUTCFullYear t + 1) \<le> DayFromYear y" by (rule DayFromYear_mono)
  then have "TimeFromYear (getUTCFullYear t + 1) \<le> TimeFromYear y"
    by (simp add: TimeFromYear_def msPerDay_def)
  then show False using le getUTCFullYear_upper [of t] by linarith
qed

lemma TimeFromYear_step:
  "TimeFromYear (y + 1) = TimeFromYear y + (if isLeap y then 366 else 365) * 86400000"
  unfolding TimeFromYear_def DayFromYear_step msPerDay_def by (simp add: algebra_simps)

lemma getUTCFullYear_TimeFromYear: "getUTCFullYear (TimeFromYear y) = y"
proof -
  have "y \<le> getUTCFullYear (TimeFromYear y)" by (rule getUTCFullYear_largest) simp
  moreover have "\<not> y < getUTCFullYear (TimeFromYear y)"
  proof
    assume "y < getUTCFullYear (TimeFromYear y)"
    then have "DayFromYear y < DayFromYear (getUTCFullYear (TimeFromYear y))"
      by (rule DayFromYear_strict)
    then have "TimeFromYear y < TimeFromYear (getUTCFullYear (TimeFromYear y))"
      by (simp add: TimeFromYear_def msPerDay_def)
    then show False using getUTCFullYear_lower [of "TimeFromYear y"] by linarith
  qed
  ultimately show ?thesis by linarith
qed

section \<open>Grid arithmetic\<close>

lemma sdiv_nonneg: "0 \<le> a \<Longrightarrow> 0 < b \<Longrightarrow> a sdiv b = a div (b::int)"
  by (simp add: signed_divide_int_def sgn_if)

lemma smod_nonneg: "0 \<le> a \<Longrightarrow> 0 < b \<Longrightarrow> a smod b = a mod (b::int)"
  by (simp add: signed_modulo_int_def sgn_if)

lemma div_bounds_int:
  fixes a b :: int
  assumes "0 < b"
  shows "b * (a div b) \<le> a" and "a < b * (a div b) + b"
proof -
  have e: "b * (a div b) + a mod b = a" by simp
  have "0 \<le> a mod b" "a mod b < b" using assms by simp_all
  then show "b * (a div b) \<le> a" and "a < b * (a div b) + b" using e by linarith+
qed

lemma div_unique_int:
  fixes a b q :: int
  assumes "0 < b" "b * q \<le> a" "a < b * q + b"
  shows "a div b = q"
proof -
  have "a = b * q + (a - b * q)" by simp
  moreover have "0 \<le> a - b * q" "a - b * q < b" using assms by linarith+
  ultimately show ?thesis
    by (metis add.commute div_mult_self2 div_pos_pos_trivial add.left_neutral assms(1) less_irrefl)
qed

text \<open>Clipping, and the years whose start \<^verbatim>\<open>Date.UTC\<close> returns.\<close>

lemma TimeClip_Some: "\<bar>t\<bar> \<le> 8640000000000000 \<Longrightarrow> TimeClip t = Some t"
  by (simp add: TimeClip_def)

lemma Date_UTC_yearStart: "Date_UTC y = TimeClip (yearStart y)"
  by (simp add: Date_UTC_def yearStart_def)

lemma TimeFromYear_mono: "y \<le> z \<Longrightarrow> TimeFromYear y \<le> TimeFromYear z"
  using DayFromYear_mono [of y z] by (simp add: TimeFromYear_def msPerDay_def)

lemma TimeFromYear_values:
  "TimeFromYear 0 = - 62167219200000" "TimeFromYear 9999 = 253370764800000"
  by (simp_all add: TimeFromYear_def DayFromYear_def msPerDay_def)

lemma yearStart_bounds:
  assumes "0 \<le> y" "y \<le> 9999"
  shows "- 62167219200000 \<le> yearStart y" and "yearStart y \<le> 253370764800000"
proof -
  define z where "z = (if 0 \<le> y \<and> y \<le> 99 then 1900 + y else y)"
  have z: "0 \<le> z" "z \<le> 9999" using assms by (simp_all add: z_def)
  have Y: "yearStart y = TimeFromYear z" by (simp add: yearStart_def z_def)
  show "- 62167219200000 \<le> yearStart y"
    unfolding Y using TimeFromYear_mono [OF z(1)] by (simp add: TimeFromYear_values)
  show "yearStart y \<le> 253370764800000"
    unfolding Y using TimeFromYear_mono [OF z(2)] by (simp add: TimeFromYear_values)
qed

lemma Date_UTC_Some:
  assumes "0 \<le> y" "y \<le> 9999"
  shows "Date_UTC y = Some (yearStart y)"
proof -
  have "\<bar>yearStart y\<bar> \<le> 8640000000000000"
    using yearStart_bounds [OF assms] by linarith
  then show ?thesis unfolding Date_UTC_yearStart by (rule TimeClip_Some)
qed

lemma TimeClip_decoded:
  assumes "0 \<le> y" "y \<le> 9999" "0 \<le> T" "T < 40000000000"
  shows "TimeClip (yearStart y + T) = Some (yearStart y + T)"
proof -
  have "\<bar>yearStart y + T\<bar> \<le> 8640000000000000"
    using yearStart_bounds [OF assms(1,2)] assms(3,4) by linarith
  then show ?thesis by (rule TimeClip_Some)
qed

lemma total_ms_bounds:
  fixes S off :: int
  assumes "0 \<le> S" "S \<le> 32000000000000000" "0 \<le> off" "off < 1000000"
  shows "0 \<le> (S + off * 1000000) div 1000000" and "(S + off * 1000000) div 1000000 < 40000000000"
proof -
  define q where "q = (S + off * 1000000) div 1000000"
  have n: "0 \<le> S + off * 1000000" using assms(1,3) by simp
  show "0 \<le> (S + off * 1000000) div 1000000" using n by (simp add: pos_imp_zdiv_nonneg_iff)
  have "1000000 * q \<le> S + off * 1000000" unfolding q_def by (rule div_bounds_int) simp
  then have "q < 40000000000" using assms(2,4) by linarith
  then show "(S + off * 1000000) div 1000000 < 40000000000" by (simp add: q_def)
qed

text \<open>The mixed-radix digits of a beat index.\<close>

lemma beat_digits:
  fixes k :: int
  assumes "0 \<le> k" "k < 67600"
  defines "p \<equiv> k sdiv 2600" and "a \<equiv> (k smod 2600) sdiv 260"
    and "b \<equiv> ((k smod 2600) smod 260) sdiv 10" and "t \<equiv> ((k smod 2600) smod 260) smod 10"
  shows "0 \<le> p \<and> p \<le> 25 \<and> 0 \<le> a \<and> a \<le> 9 \<and> 0 \<le> b \<and> b \<le> 25 \<and> 0 \<le> t \<and> t \<le> 9
         \<and> k = 2600 * p + 260 * a + 10 * b + t"
proof -
  define r1 where "r1 = k mod 2600"
  define r2 where "r2 = r1 mod 260"
  have r1: "0 \<le> r1" "r1 < 2600" by (simp_all add: r1_def)
  have r2: "0 \<le> r2" "r2 < 260" by (simp_all add: r2_def)
  have p: "p = k div 2600" using assms by (simp add: sdiv_nonneg)
  have a: "a = r1 div 260" using assms r1 by (simp add: sdiv_nonneg smod_nonneg r1_def)
  have b: "b = r2 div 10" using assms r1 r2 by (simp add: sdiv_nonneg smod_nonneg r1_def r2_def)
  have t: "t = r2 mod 10" using assms r1 r2 by (simp add: sdiv_nonneg smod_nonneg r1_def r2_def)
  have e1: "2600 * p + r1 = k" by (simp add: p r1_def)
  have e2: "260 * a + r2 = r1" by (simp add: a r2_def)
  have e3: "10 * b + t = r2" by (simp add: b t)
  have t': "0 \<le> t" "t < 10" by (simp_all add: t)
  have p1: "2600 * p \<le> k" "k < 2600 * p + 2600" unfolding p by (rule div_bounds_int, simp)+
  have a1: "260 * a \<le> r1" "r1 < 260 * a + 260" unfolding a by (rule div_bounds_int, simp)+
  have b1: "10 * b \<le> r2" "r2 < 10 * b + 10" unfolding b by (rule div_bounds_int, simp)+
  show ?thesis using e1 e2 e3 t' p1 a1 b1 r1 r2 assms(1,2) by linarith
qed


lemma yearTotalMs_cases: "yearTotalMs y = 31536000000 \<or> yearTotalMs y = 31622400000"
  by (simp add: yearTotalMs_def)

lemma grid_index_bounds:
  fixes Y ms :: int
  assumes Y: "Y = 31536000000 \<or> Y = 31622400000" and ms: "0 \<le> ms" "ms < Y"
  shows "0 \<le> (ms * 67600) div Y" and "(ms * 67600) div Y < 67600"
    and "Y * ((ms * 67600) div Y) \<le> ms * 67600"
    and "ms * 67600 < Y * ((ms * 67600) div Y) + Y"
proof -
  have pos: "0 < Y" using Y by auto
  show b1: "Y * ((ms * 67600) div Y) \<le> ms * 67600"
    and b2: "ms * 67600 < Y * ((ms * 67600) div Y) + Y"
    using div_bounds_int [OF pos, of "ms * 67600"] by simp_all
  show "0 \<le> (ms * 67600) div Y" using pos ms by (simp add: pos_imp_zdiv_nonneg_iff)
  show "(ms * 67600) div Y < 67600" using Y b1 ms by auto
qed

lemma beatStartScaled_bounds:
  fixes Y k :: int
  shows "67600 * beatStartScaled Y k \<le> Y * k * 1000000"
    and "Y * k * 1000000 < 67600 * beatStartScaled Y k + 67600"
  unfolding beatStartScaled_def using div_bounds_int [of 67600 "Y * k * 1000000"] by simp_all

lemma beatStartScaled_nonneg: "0 \<le> Y \<Longrightarrow> 0 \<le> k \<Longrightarrow> 0 \<le> beatStartScaled Y k"
  unfolding beatStartScaled_def by (simp add: pos_imp_zdiv_nonneg_iff)

lemma beatStartScaled_0: "beatStartScaled Y 0 = 0"
  by (simp add: beatStartScaled_def)

text \<open>The offset in the beat: between 0 and 999999.\<close>

lemma grid_offset_bounds:
  fixes Y ms k :: int
  assumes Y: "Y = 31536000000 \<or> Y = 31622400000"
    and k: "0 \<le> k" "Y * k \<le> ms * 67600" "ms * 67600 < Y * k + Y"
  shows "0 \<le> ms * 1000000 - beatStartScaled Y k"
    and "0 \<le> (ms * 1000000 - beatStartScaled Y k) div 1000000"
    and "(ms * 1000000 - beatStartScaled Y k) div 1000000 < 1000000"
proof -
  define S where "S = beatStartScaled Y k"
  have S: "67600 * S \<le> Y * k * 1000000" "Y * k * 1000000 < 67600 * S + 67600"
    unfolding S_def by (rule beatStartScaled_bounds)+
  have k1: "Y * k * 1000000 \<le> ms * 67600 * 1000000" using k(2) by simp
  have k2: "ms * 67600 * 1000000 < Y * k * 1000000 + Y * 1000000"
    using k(3) by (simp add: algebra_simps)
  have n: "0 \<le> ms * 1000000 - S" using S(1) k1 by linarith
  show "0 \<le> ms * 1000000 - beatStartScaled Y k" using n by (simp add: S_def)
  show "0 \<le> (ms * 1000000 - beatStartScaled Y k) div 1000000"
    using n by (simp add: S_def pos_imp_zdiv_nonneg_iff)
  have "67600 * (ms * 1000000) - 67600 * S < Y * 1000000 + 67600" using S(2) k2 by linarith
  then have "ms * 1000000 - S < 1000000 * 1000000" using Y by auto
  moreover have "1000000 * ((ms * 1000000 - S) div 1000000) \<le> ms * 1000000 - S"
    by (rule div_bounds_int) simp
  ultimately show "(ms * 1000000 - beatStartScaled Y k) div 1000000 < 1000000"
    unfolding S_def by linarith
qed

text \<open>Decoding the start of a beat plus the floored offset: the instant, or the millisecond before.\<close>

lemma round_trip_core:
  fixes S ms :: int
  shows "(S + ((ms * 1000000 - S) div 1000000) * 1000000) div 1000000
           = ms - (if S mod 1000000 = 0 then 0 else 1)"
proof -
  define q where "q = S div 1000000"
  define r where "r = S mod 1000000"
  have S: "S = 1000000 * q + r" by (simp add: q_def r_def)
  have r: "0 \<le> r" "r < 1000000" by (simp_all add: r_def)
  show ?thesis
  proof (cases "r = 0")
    case True
    have "(ms * 1000000 - S) div 1000000 = ms - q"
      by (rule div_unique_int) (simp_all add: S True algebra_simps)
    then have "(S + ((ms * 1000000 - S) div 1000000) * 1000000) div 1000000 = ms"
      by (simp add: S True algebra_simps)
    then show ?thesis using True by (simp add: r_def)
  next
    case False
    then have r': "0 < r" using r by simp
    have o: "(ms * 1000000 - S) div 1000000 = ms - q - 1"
      by (rule div_unique_int) (use r r' in \<open>simp_all add: S algebra_simps\<close>)
    have "(S + (ms - q - 1) * 1000000) div 1000000 = ms - 1"
      by (rule div_unique_int) (use r r' in \<open>simp_all add: S algebra_simps\<close>)
    then show ?thesis using False by (simp add: o r_def)
  qed
qed

text \<open>A beat starts on a whole millisecond exactly when its index is a multiple of 169.\<close>

lemma dvd_169_cancel:
  fixes Y' k :: int
  assumes Y: "Y' = 78840000 \<or> Y' = 79056000" and d: "169 dvd Y' * k"
  shows "169 dvd k"
proof -
  from d obtain q where q: "Y' * k = 169 * q" by (auto simp: dvd_def)
  from Y show ?thesis
  proof
    assume "Y' = 78840000"
    then have "k = 169 * (8 * q - 3732071 * k)" using q by simp
    then show ?thesis by (metis dvd_triv_left)
  next
    assume "Y' = 79056000"
    then have "k = 169 * (56 * q - 26196071 * k)" using q by simp
    then show ?thesis by (metis dvd_triv_left)
  qed
qed

lemma beatStartScaled_whole:
  fixes Y k :: int
  assumes Y: "Y = 31536000000 \<or> Y = 31622400000"
  shows "(beatStartScaled Y k mod 1000000 = 0) = (k mod 169 = 0)"
proof -
  define Y' where "Y' = Y div 400"
  have Y': "Y' = 78840000 \<or> Y' = 79056000"
    using Y unfolding Y'_def by (elim disjE) simp_all
  have YY: "Y = 400 * Y'"
    using Y unfolding Y'_def by (elim disjE) simp_all
  define q where "q = (Y' * k) div 169"
  define f where "f = (Y' * k) mod 169"
  have qf: "Y' * k = 169 * q + f" "0 \<le> f" "f < 169" by (simp_all add: q_def f_def)
  define S where "S = beatStartScaled Y k"
  have S: "67600 * S \<le> Y * k * 1000000" "Y * k * 1000000 < 67600 * S + 67600"
    unfolding S_def by (rule beatStartScaled_bounds)+
  have "Y * k * 1000000 = 400000000 * (Y' * k)" unfolding YY by simp
  then have e: "Y * k * 1000000 = 67600000000 * q + 400000000 * f"
    unfolding qf(1) by simp
  define g where "g = S - 1000000 * q"
  have Sg: "S = g + q * 1000000" by (simp add: g_def)
  have S': "67600 * g + 67600000000 * q \<le> 67600000000 * q + 400000000 * f"
    "67600000000 * q + 400000000 * f < 67600 * g + 67600000000 * q + 67600"
    using S unfolding e Sg by (simp_all add: distrib_left)
  have g: "169 * g \<le> 1000000 * f" "1000000 * f < 169 * g + 169"
    using S' by linarith+
  have g0: "0 \<le> g" "g < 1000000" using g qf(2,3) by linarith+
  have m: "S mod 1000000 = g" unfolding Sg using g0 by simp
  have "g = 0 \<longleftrightarrow> f = 0"
  proof
    assume "g = 0" then show "f = 0" using g qf(2,3) by linarith
  next
    assume "f = 0" then show "g = 0" using g g0 by linarith
  qed
  also have "\<dots> = (169 dvd Y' * k)" by (simp add: f_def mod_eq_0_iff_dvd)
  also have "\<dots> = (169 dvd k)"
  proof
    assume "169 dvd Y' * k" then show "169 dvd k" by (rule dvd_169_cancel [OF Y'])
  next
    assume "169 dvd k" then show "169 dvd Y' * k" by (rule dvd_mult)
  qed
  also have "\<dots> = (k mod 169 = 0)" by (simp add: mod_eq_0_iff_dvd)
  finally show ?thesis unfolding S_def [symmetric] m .
qed

section \<open>Strings and the canonical shape\<close>

lemma of_char_nat_int: "(of_char c :: nat) = nat (of_char c :: int)"
  by simp

lemma of_char_int_nat: "(of_char c :: int) = int (of_char c :: nat)"
  by (simp add: of_nat_of_char)

lemma of_char_digit_char: "n < 10 \<Longrightarrow> (of_char (digit_char n) :: nat) = 48 + n"
  by (simp add: digit_char_def)

lemma of_char_digit_char_int: "n < 10 \<Longrightarrow> (of_char (digit_char n) :: int) = 48 + int n"
  by (simp add: of_char_int_nat of_char_digit_char)

lemma of_char_letter: "0 \<le> p \<Longrightarrow> p \<le> 25 \<Longrightarrow> (of_char (char_of (65 + p :: int)) :: int) = 65 + p"
  by simp

lemma of_char_letter_nat:
  "0 \<le> p \<Longrightarrow> p \<le> 25 \<Longrightarrow> (of_char (char_of (65 + p :: int)) :: nat) = 65 + nat p"
  unfolding of_char_nat_int by (simp add: nat_add_distrib)

lemma digit_char_0: "digit_char 0 = CHR ''0''"
  by (simp add: digit_char_def char_of_eq_iff)

lemma in_class_digit_char: "n < 10 \<Longrightarrow> in_class Digit (digit_char n)"
  by (simp add: of_char_digit_char)

lemma in_class_letter: "0 \<le> p \<Longrightarrow> p \<le> 25 \<Longrightarrow> in_class Upper (char_of (65 + p :: int))"
  by (simp add: of_char_letter_nat)

lemma length_fixed_digits: "length (fixed_digits w n) = w"
  by (induction w arbitrary: n) simp_all

lemma Number_digits_snoc: "Number_digits (xs @ [c]) = 10 * Number_digits xs + (of_char c - 48)"
  by (simp add: Number_digits_def)

lemma Number_digits_fixed: "Number_digits (fixed_digits w n) = int (n mod 10 ^ w)"
proof (induction w arbitrary: n)
  case 0
  show ?case by (simp add: Number_digits_def)
next
  case (Suc w)
  have "n mod 10 ^ Suc w = 10 * (n div 10 mod 10 ^ w) + n mod 10"
    by (simp add: mod_mult2_eq)
  then show ?case
    by (simp add: Number_digits_snoc Suc of_char_digit_char_int)
qed

lemma fixed_digits_pad:
  "0 < w \<Longrightarrow> n < 10 ^ w \<Longrightarrow> padStart w CHR ''0'' (digits_nat n) = fixed_digits w n"
proof (induction w arbitrary: n)
  case 0
  then show ?case by simp
next
  case (Suc w)
  show ?case
  proof (cases "w = 0")
    case True
    then have "n < 10" using Suc.prems by simp
    then show ?thesis using True by (simp add: padStart_def digits_nat.simps [of n])
  next
    case False
    then have w: "0 < w" by simp
    have n10: "n div 10 < 10 ^ w" using Suc.prems by (simp add: less_mult_imp_div_less)
    have IH: "padStart w CHR ''0'' (digits_nat (n div 10)) = fixed_digits w (n div 10)"
      by (rule Suc.IH [OF w n10])
    have len: "length (digits_nat (n div 10)) \<le> w"
    proof -
      have "length (padStart w CHR ''0'' (digits_nat (n div 10))) = w"
        unfolding IH by (rule length_fixed_digits)
      then show ?thesis by (simp add: padStart_def)
    qed
    show ?thesis
    proof (cases "n < 10")
      case True
      then have z: "n div 10 = 0" by simp
      have d0: "digits_nat 0 = [CHR ''0'']" by (simp add: digits_nat.simps [of 0] digit_char_0)
      have "fixed_digits w (n div 10) = replicate w CHR ''0''"
        using IH w unfolding z d0 padStart_def
        by (simp add: replicate_append_same [symmetric] Suc_diff_Suc del: replicate_Suc)
           (metis Suc_pred replicate_Suc replicate_append_same)
      then show ?thesis using True by (simp add: padStart_def digits_nat.simps [of n])
    next
      case False
      then have "digits_nat n = digits_nat (n div 10) @ [digit_char (n mod 10)]"
        by (simp add: digits_nat.simps [of n])
      then show ?thesis using IH len by (simp add: padStart_def Suc_diff_le)
    qed
  qed
qed


lemma fixed_digits_4:
  "fixed_digits 4 n =
     [digit_char (n div 10 div 10 div 10 mod 10), digit_char (n div 10 div 10 mod 10),
      digit_char (n div 10 mod 10), digit_char (n mod 10)]"
proof -
  have "(4::nat) = Suc (Suc (Suc (Suc 0)))" by simp
  then show ?thesis by (simp only: fixed_digits.simps append.simps)
qed

lemma fixed_digits_6:
  "fixed_digits 6 n =
     [digit_char (n div 10 div 10 div 10 div 10 div 10 mod 10),
      digit_char (n div 10 div 10 div 10 div 10 mod 10),
      digit_char (n div 10 div 10 div 10 mod 10), digit_char (n div 10 div 10 mod 10),
      digit_char (n div 10 mod 10), digit_char (n mod 10)]"
proof -
  have "(6::nat) = Suc (Suc (Suc (Suc (Suc (Suc 0)))))" by simp
  then show ?thesis by (simp only: fixed_digits.simps append.simps)
qed

lemma String_int_digit:
  assumes "0 \<le> a" "a \<le> 9"
  shows "String_int a = [digit_char (nat a)]"
proof -
  have "nat a < 10" using assms by linarith
  then show ?thesis using assms by (simp add: String_int_def digits_nat.simps [of "nat a"])
qed

lemma String_int_pad6:
  assumes "0 \<le> off" "off < 1000000"
  shows "padStart 6 CHR ''0'' (String_int off) = fixed_digits 6 (nat off)"
proof -
  have "nat off < 10 ^ 6" using assms by simp
  then have "padStart 6 CHR ''0'' (digits_nat (nat off)) = fixed_digits 6 (nat off)"
    by (intro fixed_digits_pad) simp_all
  then show ?thesis using assms by (simp add: String_int_def)
qed

lemma String_int_year:
  assumes "1000 \<le> y" "y \<le> 9999"
  shows "String_int y = fixed_digits 4 (nat y)"
proof -
  define n where "n = nat y"
  have n: "1000 \<le> n" "n < 10000" using assms by (simp_all add: n_def)
  have p: "padStart 4 CHR ''0'' (digits_nat n) = fixed_digits 4 n"
    using n by (intro fixed_digits_pad) simp_all
  have a: "\<not> n < 10" "\<not> n div 10 < 10" "\<not> n div 10 div 10 < 10" using n by simp_all
  have "digits_nat n = digits_nat (n div 10 div 10 div 10) @ [digit_char (n div 10 div 10 mod 10),
      digit_char (n div 10 mod 10), digit_char (n mod 10)]"
    using a by (simp add: digits_nat.simps [of n] digits_nat.simps [of "n div 10"]
        digits_nat.simps [of "n div 10 div 10"])
  then have "4 \<le> length (digits_nat n)"
    by (simp add: digits_nat.simps [of "n div 10 div 10 div 10"])
  then have "padStart 4 CHR ''0'' (digits_nat n) = digits_nat n" by (simp add: padStart_def)
  then show ?thesis using p assms by (simp add: String_int_def n_def)
qed

lemma canon_string_fixed:
  assumes "1000 \<le> y" "y \<le> 9999" "0 \<le> a" "a \<le> 9" "0 \<le> t" "t \<le> 9" "0 \<le> off" "off < 1000000"
  shows "canon_string y p a b t off =
           fixed_digits 4 (nat y) @ CHR ''_'' # char_of (65 + p) # digit_char (nat a)
             # char_of (65 + b) # digit_char (nat t) # CHR ''_'' # fixed_digits 6 (nat off)"
  using assms
  by (simp add: canon_string_def String_int_year String_int_digit String_int_pad6
      String_fromCharCode_def)

lemma canon_string_match:
  assumes "1000 \<le> y" "y \<le> 9999" "0 \<le> p" "p \<le> 25" "0 \<le> a" "a \<le> 9" "0 \<le> b" "b \<le> 25"
    "0 \<le> t" "t \<le> 9" "0 \<le> off" "off < 1000000"
  shows "regex_match canonical_regex (canon_string y p a b t off)"
proof -
  have d: "nat a < 10" "nat t < 10" using assms by simp_all
  have m: "\<And>n. in_class Digit (digit_char (n mod 10))" by (rule in_class_digit_char) simp
  show ?thesis
    unfolding canon_string_fixed [OF assms(1,2,5,6,9,10,11,12)] fixed_digits_4 fixed_digits_6
      canonical_regex_def
    using in_class_letter [OF assms(3,4)] in_class_letter [OF assms(7,8)]
      in_class_digit_char [OF d(1)] in_class_digit_char [OF d(2)] m
    by simp
qed

lemma canon_string_groups:
  assumes "1000 \<le> y" "y \<le> 9999" "0 \<le> a" "a \<le> 9" "0 \<le> t" "t \<le> 9" "0 \<le> off" "off < 1000000"
  shows "canonical_groups (canon_string y p a b t off) =
           (fixed_digits 4 (nat y), [char_of (65 + p)], [digit_char (nat a)], [char_of (65 + b)],
            [digit_char (nat t)], fixed_digits 6 (nat off))"
  unfolding canon_string_fixed [OF assms] canonical_groups_def
  by (simp add: length_fixed_digits)

lemma Number_digits_single: "n < 10 \<Longrightarrow> Number_digits [digit_char n] = int n"
  by (simp add: Number_digits_def of_char_digit_char_int)

section \<open>The grid codec on in-range instants\<close>

lemma beat_digits_range:
  fixes k :: int
  assumes "0 \<le> k" "k < 67600"
  shows "0 \<le> beat_period k" "beat_period k \<le> 25" "0 \<le> beat_arc k" "beat_arc k \<le> 9"
    "0 \<le> beat_bar k" "beat_bar k \<le> 25" "0 \<le> beat_digit k" "beat_digit k \<le> 9"
    "k = 2600 * beat_period k + 260 * beat_arc k + 10 * beat_bar k + beat_digit k"
    "k sdiv 2600 = beat_period k" "(k smod 2600) sdiv 260 = beat_arc k"
    "((k smod 2600) smod 260) sdiv 10 = beat_bar k" "((k smod 2600) smod 260) smod 10 = beat_digit k"
proof -
  have r1: "0 \<le> k mod 2600" by simp
  have r2: "0 \<le> k mod 2600 mod 260" by simp
  show p: "k sdiv 2600 = beat_period k" using assms by (simp add: sdiv_nonneg beat_period_def)
  have m1: "k smod 2600 = k mod 2600" using assms by (simp add: smod_nonneg)
  have m2: "(k mod 2600) smod 260 = k mod 2600 mod 260" using r1 by (simp add: smod_nonneg)
  show a: "(k smod 2600) sdiv 260 = beat_arc k"
    unfolding m1 beat_arc_def using r1 by (simp add: sdiv_nonneg)
  show b: "((k smod 2600) smod 260) sdiv 10 = beat_bar k"
    unfolding m1 m2 beat_bar_def using r2 by (simp add: sdiv_nonneg)
  show t: "((k smod 2600) smod 260) smod 10 = beat_digit k"
    unfolding m1 m2 beat_digit_def using r2 by (simp add: smod_nonneg)
  have A: "0 \<le> beat_period k \<and> beat_period k \<le> 25 \<and> 0 \<le> beat_arc k \<and> beat_arc k \<le> 9 \<and>
      0 \<le> beat_bar k \<and> beat_bar k \<le> 25 \<and> 0 \<le> beat_digit k \<and> beat_digit k \<le> 9 \<and>
      k = 2600 * beat_period k + 260 * beat_arc k + 10 * beat_bar k + beat_digit k"
    using beat_digits [OF assms] unfolding p a b t .
  show "0 \<le> beat_period k" "beat_period k \<le> 25" "0 \<le> beat_arc k" "beat_arc k \<le> 9"
    "0 \<le> beat_bar k" "beat_bar k \<le> 25" "0 \<le> beat_digit k" "beat_digit k \<le> 9"
    "k = 2600 * beat_period k + 260 * beat_arc k + 10 * beat_bar k + beat_digit k"
    using A by blast+
qed

lemma toBase26_grid_ok: "0 \<le> n \<Longrightarrow> n \<le> 25 \<Longrightarrow> toBase26_grid n = Inr [char_of (65 + n)]"
  by (simp add: toBase26_grid_def String_fromCharCode_def)

lemma encode_grid_eq:
  assumes r: "0 \<le> msSinceYearStart d" "msSinceYearStart d < yearTotalMs (getUTCFullYear d)"
    and c: "Date_UTC (getUTCFullYear d) = Some (yearStart (getUTCFullYear d))"
  defines "y \<equiv> getUTCFullYear d"
  defines "Y \<equiv> yearTotalMs y"
  defines "ms \<equiv> msSinceYearStart d"
  defines "k \<equiv> (ms * 67600) div Y"
  shows "encode_grid d =
    Inr \<lparr> canonical = canon_string y (beat_period k) (beat_arc k) (beat_bar k) (beat_digit k)
                        (msOffset_grid Y ms),
          year = y, period = beat_period k, arc = beat_arc k, bar = beat_bar k,
          beat = beat_digit k, msOffsetInBeat = msOffset_grid Y ms,
          periodLetter = [char_of (65 + beat_period k)], barLetter = [char_of (65 + beat_bar k)],
          readable = [char_of (65 + beat_period k)] @ String_int (beat_arc k) @ '':''
                       @ [char_of (65 + beat_bar k)] @ String_int (beat_digit k),
          arcStartMsInYear =
            beatStartScaled Y (beat_period k * 2600 + beat_arc k * 260) div 1000000,
          arcEndMsInYear =
            beatStartScaled Y (beat_period k * 2600 + beat_arc k * 260 + 260) div 1000000 \<rparr>"
proof -
  have Yc: "Y = 31536000000 \<or> Y = 31622400000" unfolding Y_def by (rule yearTotalMs_cases)
  have Ypos: "0 < Y" using Yc by (elim disjE) simp_all
  have ms: "0 \<le> ms" "ms < Y" using r by (simp_all add: ms_def Y_def y_def)
  have kb: "0 \<le> k" "k < 67600" "Y * k \<le> ms * 67600" "ms * 67600 < Y * k + Y"
    unfolding k_def by (rule grid_index_bounds [OF Yc ms])+
  note dg = beat_digits_range [OF kb(1,2)]
  have e1: "(ms * 67600) sdiv Y = k"
    unfolding k_def using ms Ypos by (simp add: sdiv_nonneg)
  have e2: "\<And>j. 0 \<le> j \<Longrightarrow> (Y * j * SCALER_N) sdiv 67600 = beatStartScaled Y j"
    unfolding beatStartScaled_def SCALER_N_def using Ypos by (simp add: sdiv_nonneg)
  have e3: "(ms * SCALER_N - beatStartScaled Y k) sdiv SCALER_N = msOffset_grid Y ms"
    unfolding msOffset_grid_def k_def [symmetric] SCALER_N_def
    using grid_offset_bounds(1) [OF Yc kb(1,3,4)] by (simp add: sdiv_nonneg)
  have j1: "0 \<le> beat_period k * 2600 + beat_arc k * 260" using dg(1,3) by simp
  have j2: "0 \<le> beat_period k * 2600 + beat_arc k * 260 + 260" using dg(1,3) by simp
  have e4: "\<And>j. 0 \<le> j \<Longrightarrow> beatStartScaled Y j sdiv SCALER_N = beatStartScaled Y j div 1000000"
    unfolding SCALER_N_def using Ypos by (simp add: sdiv_nonneg beatStartScaled_nonneg)
  have ms_eq: "d - yearStart y = ms" by (simp add: ms_def msSinceYearStart_def y_def)
  have YY: "(if isLeap y then 366 else 365) * 86400000 = Y" by (simp add: Y_def yearTotalMs_def)
  show ?thesis
    unfolding encode_grid_def Let_def
    unfolding c option.case
    unfolding y_def [symmetric]
    unfolding ms_eq YY
    unfolding e1 e2 [OF kb(1)] e3 dg(10-13) e2 [OF j1] e2 [OF j2] e4 [OF j1] e4 [OF j2]
      toBase26_grid_ok [OF dg(1,2)] toBase26_grid_ok [OF dg(5,6)]
    by (simp add: canon_string_def String_fromCharCode_def)
qed


lemma msSinceYearStart_range:
  assumes "\<not> (0 \<le> getUTCFullYear d \<and> getUTCFullYear d \<le> 99)"
  shows "0 \<le> msSinceYearStart d" and "msSinceYearStart d < yearTotalMs (getUTCFullYear d)"
proof -
  have D: "yearStart (getUTCFullYear d) = TimeFromYear (getUTCFullYear d)"
    using assms by (auto simp: yearStart_def)
  show "0 \<le> msSinceYearStart d"
    unfolding msSinceYearStart_def D using getUTCFullYear_lower [of d] by simp
  show "msSinceYearStart d < yearTotalMs (getUTCFullYear d)"
    unfolding msSinceYearStart_def D yearTotalMs_def
    using getUTCFullYear_upper [of d] unfolding TimeFromYear_step by simp
qed

lemma valid_instant_range:
  assumes "valid_instant d"
  shows "0 \<le> msSinceYearStart d" and "msSinceYearStart d < yearTotalMs (getUTCFullYear d)"
    and "Date_UTC (getUTCFullYear d) = Some (yearStart (getUTCFullYear d))"
proof -
  have "\<not> (0 \<le> getUTCFullYear d \<and> getUTCFullYear d \<le> 99)"
    using assms by (simp add: valid_instant_def)
  then show "0 \<le> msSinceYearStart d" and "msSinceYearStart d < yearTotalMs (getUTCFullYear d)"
    by (rule msSinceYearStart_range)+
  have "0 \<le> getUTCFullYear d" "getUTCFullYear d \<le> 9999"
    using assms by (simp_all add: valid_instant_def)
  then show "Date_UTC (getUTCFullYear d) = Some (yearStart (getUTCFullYear d))"
    by (rule Date_UTC_Some)
qed

lemma beatStartScaled_upper:
  fixes Y k :: int
  assumes Yc: "Y = 31536000000 \<or> Y = 31622400000" and k: "0 \<le> k" "k \<le> 67599"
  shows "0 \<le> beatStartScaled Y k" and "beatStartScaled Y k \<le> 32000000000000000"
proof -
  have Y0: "0 \<le> Y" using Yc by (elim disjE) simp_all
  show "0 \<le> beatStartScaled Y k" by (rule beatStartScaled_nonneg [OF Y0 k(1)])
  note S = beatStartScaled_bounds(1) [of Y k]
  from Yc show "beatStartScaled Y k \<le> 32000000000000000"
  proof
    assume Y: "Y = 31536000000"
    show "beatStartScaled Y k \<le> 32000000000000000"
      unfolding Y using S [unfolded Y] k(2) by linarith
  next
    assume Y: "Y = 31622400000"
    show "beatStartScaled Y k \<le> 32000000000000000"
      unfolding Y using S [unfolded Y] k(2) by linarith
  qed
qed

lemma charCodeAt0_letter: "0 \<le> p \<Longrightarrow> p \<le> 25 \<Longrightarrow> charCodeAt0 [char_of (65 + p)] - 65 = p"
  by (simp add: charCodeAt0_def)

lemma decode_grid_canon:
  assumes y: "1000 \<le> y" "y \<le> 9999" and p: "0 \<le> p" "p \<le> 25" and a: "0 \<le> a" "a \<le> 9"
    and b: "0 \<le> b" "b \<le> 25" and t: "0 \<le> t" "t \<le> 9" and off: "0 \<le> off" "off < 1000000"
  shows "decode_grid (canon_string y p a b t off) =
           Inr (Some (yearStart y
                        + (beatStartScaled (yearTotalMs y) (2600 * p + 260 * a + 10 * b + t)
                             + off * 1000000) div 1000000))"
proof -
  have m: "regex_match canonical_regex (canon_string y p a b t off)"
    by (rule canon_string_match [OF y p a b t off])
  note g = canon_string_groups [OF y a t off, of p b]
  have ny: "Number_digits (fixed_digits 4 (nat y)) = y"
    unfolding Number_digits_fixed using y by simp
  have no: "Number_digits (fixed_digits 6 (nat off)) = off"
    unfolding Number_digits_fixed using off by simp
  have na: "Number_digits [digit_char (nat a)] = a"
    using a by (simp add: Number_digits_single)
  have nt: "Number_digits [digit_char (nat t)] = t"
    using t by (simp add: Number_digits_single)
  define k where "k = 2600 * p + 260 * a + 10 * b + t"
  have k: "p * 2600 + a * 260 + b * 10 + t = k" by (simp add: k_def)
  have k0: "0 \<le> k" using p a b t by (simp add: k_def)
  have Y0: "0 \<le> yearTotalMs y" by (simp add: yearTotalMs_def)
  have YY: "(if isLeap y then 366 else 365) * 86400000 = yearTotalMs y"
    by (simp add: yearTotalMs_def)
  have S0: "0 \<le> beatStartScaled (yearTotalMs y) k"
    by (rule beatStartScaled_nonneg [OF Y0 k0])
  have e1: "(yearTotalMs y * SCALER_N * k) sdiv 67600 = beatStartScaled (yearTotalMs y) k"
  proof -
    have c: "yearTotalMs y * SCALER_N * k = yearTotalMs y * k * 1000000"
      by (simp add: SCALER_N_def)
    have n: "0 \<le> yearTotalMs y * k * 1000000" using Y0 k0 by simp
    show ?thesis unfolding c beatStartScaled_def by (rule sdiv_nonneg [OF n]) simp
  qed
  have e2: "(beatStartScaled (yearTotalMs y) k + off * SCALER_N) sdiv SCALER_N
              = (beatStartScaled (yearTotalMs y) k + off * 1000000) div 1000000"
    using S0 off(1) by (simp add: SCALER_N_def sdiv_nonneg)
  have y0: "0 \<le> y" using y(1) by simp
  have k1: "k \<le> 67599" using p a b t by (simp add: k_def)
  note DS = Date_UTC_Some [OF y0 y(2)]
  note TC = TimeClip_decoded [OF y0 y(2)
      total_ms_bounds [OF beatStartScaled_upper [OF yearTotalMs_cases [of y] k0 k1] off]]
  show ?thesis
    unfolding decode_grid_def g
    unfolding k_def [symmetric]
    using m
    by (simp only: if_False not_True_eq_False simp_thms prod.case Let_def ny no na nt
        charCodeAt0_letter [OF p] charCodeAt0_letter [OF b] YY k e1 e2 DS option.case TC)
qed

section \<open>The division cascade on in-range instants\<close>

lemma lib_cascade_365:
  fixes ms k p a b t S :: int
  assumes k: "31536000000 * k \<le> ms * 67600" "ms * 67600 < 31536000000 * k + 31536000000"
    and d: "k = 2600 * p + 260 * a + 10 * b + t"
    and r: "0 \<le> p" "p \<le> 25" "0 \<le> a" "a \<le> 9" "0 \<le> b" "b \<le> 25" "0 \<le> t" "t \<le> 9"
    and S: "67600 * S \<le> 31536000000 * k * 1000000" "31536000000 * k * 1000000 < 67600 * S + 67600"
  shows "1212923076923076 * p \<le> ms * 1000000"
    and "ms * 1000000 < 1212923076923076 * p + 1212923076923076"
    and "121292307692307 * a \<le> ms * 1000000 - p * 1212923076923076"
    and "ms * 1000000 - p * 1212923076923076 < 121292307692307 * a + 121292307692307"
    and "4665088757396 * b \<le> ms * 1000000 - p * 1212923076923076 - a * 121292307692307"
    and "ms * 1000000 - p * 1212923076923076 - a * 121292307692307 < 4665088757396 * b + 4665088757396"
    and "466508875739 * t \<le> ms * 1000000 - p * 1212923076923076 - a * 121292307692307 - b * 4665088757396"
    and "ms * 1000000 - p * 1212923076923076 - a * 121292307692307 - b * 4665088757396 < 466508875739 * t + 466508875739"
    and "p * 1212923076923076 + a * 121292307692307 + b * 4665088757396 + t * 466508875739 \<le> S"
    and "S < p * 1212923076923076 + a * 121292307692307 + b * 4665088757396 + t * 466508875739 + 5917"
proof -
  have cut: "169 * ms + 1 \<le> 78840000 * k + 78840000" using k(2) by linarith
  have lo: "78840000 * k \<le> 169 * ms" using k(1) by linarith
  show "1212923076923076 * p \<le> ms * 1000000" using lo d r by linarith
  show "ms * 1000000 < 1212923076923076 * p + 1212923076923076" using cut d r by linarith
  show "121292307692307 * a \<le> ms * 1000000 - p * 1212923076923076" using lo d r by linarith
  show "ms * 1000000 - p * 1212923076923076 < 121292307692307 * a + 121292307692307" using cut d r by linarith
  show "4665088757396 * b \<le> ms * 1000000 - p * 1212923076923076 - a * 121292307692307" using lo d r by linarith
  show "ms * 1000000 - p * 1212923076923076 - a * 121292307692307 < 4665088757396 * b + 4665088757396" using cut d r by linarith
  show "466508875739 * t \<le> ms * 1000000 - p * 1212923076923076 - a * 121292307692307 - b * 4665088757396" using lo d r by linarith
  show "ms * 1000000 - p * 1212923076923076 - a * 121292307692307 - b * 4665088757396 < 466508875739 * t + 466508875739" using cut d r by linarith
  show "p * 1212923076923076 + a * 121292307692307 + b * 4665088757396 + t * 466508875739 \<le> S" using S(2) d r by linarith
  show "S < p * 1212923076923076 + a * 121292307692307 + b * 4665088757396 + t * 466508875739 + 5917" using S(1) d r by linarith
qed

lemma lib_cascade_366:
  fixes ms k p a b t S :: int
  assumes k: "31622400000 * k \<le> ms * 67600" "ms * 67600 < 31622400000 * k + 31622400000"
    and d: "k = 2600 * p + 260 * a + 10 * b + t"
    and r: "0 \<le> p" "p \<le> 25" "0 \<le> a" "a \<le> 9" "0 \<le> b" "b \<le> 25" "0 \<le> t" "t \<le> 9"
    and S: "67600 * S \<le> 31622400000 * k * 1000000" "31622400000 * k * 1000000 < 67600 * S + 67600"
  shows "1216246153846153 * p \<le> ms * 1000000"
    and "ms * 1000000 < 1216246153846153 * p + 1216246153846153"
    and "121624615384615 * a \<le> ms * 1000000 - p * 1216246153846153"
    and "ms * 1000000 - p * 1216246153846153 < 121624615384615 * a + 121624615384615"
    and "4677869822485 * b \<le> ms * 1000000 - p * 1216246153846153 - a * 121624615384615"
    and "ms * 1000000 - p * 1216246153846153 - a * 121624615384615 < 4677869822485 * b + 4677869822485"
    and "467786982248 * t \<le> ms * 1000000 - p * 1216246153846153 - a * 121624615384615 - b * 4677869822485"
    and "ms * 1000000 - p * 1216246153846153 - a * 121624615384615 - b * 4677869822485 < 467786982248 * t + 467786982248"
    and "p * 1216246153846153 + a * 121624615384615 + b * 4677869822485 + t * 467786982248 \<le> S"
    and "S < p * 1216246153846153 + a * 121624615384615 + b * 4677869822485 + t * 467786982248 + 5917"
proof -
  have cut: "169 * ms + 1 \<le> 79056000 * k + 79056000" using k(2) by linarith
  have lo: "79056000 * k \<le> 169 * ms" using k(1) by linarith
  show "1216246153846153 * p \<le> ms * 1000000" using lo d r by linarith
  show "ms * 1000000 < 1216246153846153 * p + 1216246153846153" using cut d r by linarith
  show "121624615384615 * a \<le> ms * 1000000 - p * 1216246153846153" using lo d r by linarith
  show "ms * 1000000 - p * 1216246153846153 < 121624615384615 * a + 121624615384615" using cut d r by linarith
  show "4677869822485 * b \<le> ms * 1000000 - p * 1216246153846153 - a * 121624615384615" using lo d r by linarith
  show "ms * 1000000 - p * 1216246153846153 - a * 121624615384615 < 4677869822485 * b + 4677869822485" using cut d r by linarith
  show "467786982248 * t \<le> ms * 1000000 - p * 1216246153846153 - a * 121624615384615 - b * 4677869822485" using lo d r by linarith
  show "ms * 1000000 - p * 1216246153846153 - a * 121624615384615 - b * 4677869822485 < 467786982248 * t + 467786982248" using cut d r by linarith
  show "p * 1216246153846153 + a * 121624615384615 + b * 4677869822485 + t * 467786982248 \<le> S" using S(2) d r by linarith
  show "S < p * 1216246153846153 + a * 121624615384615 + b * 4677869822485 + t * 467786982248 + 5917" using S(1) d r by linarith
qed

lemma lib_sizes_365:
  "periodSizeScaled 31536000000 = 1212923076923076" "arcSizeScaled 31536000000 = 121292307692307"
  "barSizeScaled 31536000000 = 4665088757396" "beatSizeScaled 31536000000 = 466508875739"
  by (simp_all add: periodSizeScaled_def arcSizeScaled_def barSizeScaled_def beatSizeScaled_def)

lemma lib_sizes_366:
  "periodSizeScaled 31622400000 = 1216246153846153" "arcSizeScaled 31622400000 = 121624615384615"
  "barSizeScaled 31622400000 = 4677869822485" "beatSizeScaled 31622400000 = 467786982248"
  by (simp_all add: periodSizeScaled_def arcSizeScaled_def barSizeScaled_def beatSizeScaled_def)

lemma lib_sizes_pos:
  assumes "Y = 31536000000 \<or> Y = 31622400000"
  shows "0 < periodSizeScaled Y" "0 < arcSizeScaled Y" "0 < barSizeScaled Y" "0 < beatSizeScaled Y"
  using assms by (elim disjE; simp add: lib_sizes_365 lib_sizes_366)+

lemma lib_cascade:
  fixes Y ms k :: int
  assumes Yc: "Y = 31536000000 \<or> Y = 31622400000"
    and k: "Y * k \<le> ms * 67600" "ms * 67600 < Y * k + Y"
    and kr: "0 \<le> k" "k < 67600"
  defines "p \<equiv> beat_period k" and "a \<equiv> beat_arc k" and "b \<equiv> beat_bar k" and "t \<equiv> beat_digit k"
  defines "P \<equiv> periodSizeScaled Y" and "A \<equiv> arcSizeScaled Y" and "B \<equiv> barSizeScaled Y"
    and "T \<equiv> beatSizeScaled Y"
  shows "P * p \<le> ms * 1000000"
    and "ms * 1000000 < P * p + P"
    and "A * a \<le> ms * 1000000 - p * P"
    and "ms * 1000000 - p * P < A * a + A"
    and "B * b \<le> ms * 1000000 - p * P - a * A"
    and "ms * 1000000 - p * P - a * A < B * b + B"
    and "T * t \<le> ms * 1000000 - p * P - a * A - b * B"
    and "ms * 1000000 - p * P - a * A - b * B < T * t + T"
    and "beatStartScaled_lib Y k \<le> beatStartScaled Y k"
    and "beatStartScaled Y k < beatStartScaled_lib Y k + 5917"
proof -
  note dg = beat_digits_range [OF kr]
  have d: "k = 2600 * p + 260 * a + 10 * b + t" unfolding p_def a_def b_def t_def by (rule dg(9))
  have r: "0 \<le> p" "p \<le> 25" "0 \<le> a" "a \<le> 9" "0 \<le> b" "b \<le> 25" "0 \<le> t" "t \<le> 9"
    unfolding p_def a_def b_def t_def by (rule dg)+
  note S = beatStartScaled_bounds [of Y k]
  have L: "beatStartScaled_lib Y k = p * P + a * A + b * B + t * T"
    by (simp add: beatStartScaled_lib_def unitsScaled_lib_def p_def a_def b_def t_def P_def A_def
        B_def T_def)
  have "(P * p \<le> ms * 1000000 \<and> ms * 1000000 < P * p + P)
      \<and> (A * a \<le> ms * 1000000 - p * P \<and> ms * 1000000 - p * P < A * a + A)
      \<and> (B * b \<le> ms * 1000000 - p * P - a * A \<and> ms * 1000000 - p * P - a * A < B * b + B)
      \<and> (T * t \<le> ms * 1000000 - p * P - a * A - b * B
          \<and> ms * 1000000 - p * P - a * A - b * B < T * t + T)
      \<and> (p * P + a * A + b * B + t * T \<le> beatStartScaled Y k
          \<and> beatStartScaled Y k < p * P + a * A + b * B + t * T + 5917)"
    using Yc
  proof
    assume Y: "Y = 31536000000"
    note c = lib_cascade_365 [OF k [unfolded Y] d r S [unfolded Y]]
    show ?thesis unfolding P_def A_def B_def T_def Y lib_sizes_365 using c by blast
  next
    assume Y: "Y = 31622400000"
    note c = lib_cascade_366 [OF k [unfolded Y] d r S [unfolded Y]]
    show ?thesis unfolding P_def A_def B_def T_def Y lib_sizes_366 using c by blast
  qed
  then show "P * p \<le> ms * 1000000"
    and "ms * 1000000 < P * p + P"
    and "A * a \<le> ms * 1000000 - p * P"
    and "ms * 1000000 - p * P < A * a + A"
    and "B * b \<le> ms * 1000000 - p * P - a * A"
    and "ms * 1000000 - p * P - a * A < B * b + B"
    and "T * t \<le> ms * 1000000 - p * P - a * A - b * B"
    and "ms * 1000000 - p * P - a * A - b * B < T * t + T"
    and "beatStartScaled_lib Y k \<le> beatStartScaled Y k"
    and "beatStartScaled Y k < beatStartScaled_lib Y k + 5917"
    unfolding L by blast+
qed


lemma beatStartScaled_residue:
  fixes Y k :: int
  assumes Y: "Y = 31536000000 \<or> Y = 31622400000"
  shows "beatStartScaled Y k mod 1000000 = 0 \<or> 5917 \<le> beatStartScaled Y k mod 1000000"
proof -
  define Y' where "Y' = Y div 400"
  have YY: "Y = 400 * Y'"
    using Y unfolding Y'_def by (elim disjE) simp_all
  define q where "q = (Y' * k) div 169"
  define f where "f = (Y' * k) mod 169"
  have qf: "Y' * k = 169 * q + f" "0 \<le> f" "f < 169" by (simp_all add: q_def f_def)
  define S where "S = beatStartScaled Y k"
  have S: "67600 * S \<le> Y * k * 1000000" "Y * k * 1000000 < 67600 * S + 67600"
    unfolding S_def by (rule beatStartScaled_bounds)+
  have "Y * k * 1000000 = 400000000 * (Y' * k)" unfolding YY by simp
  then have e: "Y * k * 1000000 = 67600000000 * q + 400000000 * f"
    unfolding qf(1) by simp
  define g where "g = S - 1000000 * q"
  have Sg: "S = g + q * 1000000" by (simp add: g_def)
  have S': "67600 * g + 67600000000 * q \<le> 67600000000 * q + 400000000 * f"
    "67600000000 * q + 400000000 * f < 67600 * g + 67600000000 * q + 67600"
    using S unfolding e Sg by (simp_all add: distrib_left)
  have g: "169 * g \<le> 1000000 * f" "1000000 * f < 169 * g + 169"
    using S' by linarith+
  have g0: "0 \<le> g" "g < 1000000" using g qf(2,3) by linarith+
  have m: "S mod 1000000 = g" unfolding Sg using g0 by simp
  have "g = 0 \<or> 5917 \<le> g"
  proof (cases "f = 0")
    case True
    then have "g = 0" using g g0 by linarith
    then show ?thesis by simp
  next
    case False
    then have "1 \<le> f" using qf(2) by linarith
    then have "5917 \<le> g" using g(2) by linarith
    then show ?thesis by simp
  qed
  then show ?thesis unfolding S_def [symmetric] m .
qed

lemma lib_offset_eq:
  fixes Y ms :: int
  assumes Yc: "Y = 31536000000 \<or> Y = 31622400000" and ms: "0 \<le> ms" "ms < Y"
  defines "k \<equiv> (ms * 67600) div Y"
  shows "(ms * 1000000 - beatStartScaled_lib Y k) div 1000000 = msOffset_grid Y ms"
proof -
  have kb: "0 \<le> k" "k < 67600" "Y * k \<le> ms * 67600" "ms * 67600 < Y * k + Y"
    unfolding k_def by (rule grid_index_bounds [OF Yc ms])+
  define S where "S = beatStartScaled Y k"
  define L where "L = beatStartScaled_lib Y k"
  define c where "c = msOffset_grid Y ms"
  have LS: "L \<le> S" "S < L + 5917"
    unfolding L_def S_def by (rule lib_cascade(9,10) [OF Yc kb(3,4,1,2)])+
  have c: "1000000 * c \<le> ms * 1000000 - S" "ms * 1000000 - S < 1000000 * c + 1000000"
    unfolding c_def msOffset_grid_def k_def [symmetric] S_def
    by (rule div_bounds_int, simp)+
  define q where "q = S div 1000000"
  define g where "g = S mod 1000000"
  have S: "S = 1000000 * q + g" "0 \<le> g" "g < 1000000" by (simp_all add: q_def g_def)
  have res: "g = 0 \<or> 5917 \<le> g"
    unfolding g_def S_def by (rule beatStartScaled_residue [OF Yc])
  define z where "z = ms - c - 1"
  have z: "1000000 * z = ms * 1000000 - 1000000 * c - 1000000" by (simp add: z_def)
  have hi: "ms * 1000000 - L < 1000000 * c + 1000000"
  proof (rule ccontr)
    assume "\<not> ms * 1000000 - L < 1000000 * c + 1000000"
    then have a1: "L \<le> 1000000 * z" using z by linarith
    have a2: "1000000 * z < S" using c(2) z by linarith
    from res show False
    proof
      assume g0: "g = 0"
      then have "z < q" using a2 S(1) by linarith
      then have "z + 1 \<le> q" by linarith
      then show False using a1 LS(2) S(1) g0 by linarith
    next
      assume g1: "5917 \<le> g"
      have "z < q + 1" using a2 S(1,3) by linarith
      then have "z \<le> q" by linarith
      then show False using a1 LS(2) S(1) g1 by linarith
    qed
  qed
  have lo: "1000000 * c \<le> ms * 1000000 - L" using c(1) LS(1) by linarith
  have "(ms * 1000000 - L) div 1000000 = c"
    by (rule div_unique_int [OF _ lo hi]) simp
  then show ?thesis unfolding L_def c_def .
qed


lemma sdiv_unique_int:
  fixes a b q :: int
  assumes "0 < b" "b * q \<le> a" "a < b * q + b" "0 \<le> q"
  shows "a sdiv b = q"
proof -
  have "0 \<le> b * q" using assms(1,4) by simp
  then have "0 \<le> a" using assms(2) by linarith
  then have "a sdiv b = a div b" using assms(1) by (rule sdiv_nonneg)
  then show ?thesis using div_unique_int [OF assms(1,2,3)] by simp
qed

lemma toBase26_lib_ok: "0 \<le> n \<Longrightarrow> n \<le> 25 \<Longrightarrow> toBase26_lib n = Inr [char_of (65 + n)]"
  by (simp add: toBase26_lib_def String_fromCharCode_def)

lemma lib_sizes_sdiv:
  assumes Yc: "Y = 31536000000 \<or> Y = 31622400000"
  shows "(Y * SCALER_N) sdiv 26 = periodSizeScaled Y"
    and "periodSizeScaled Y sdiv 10 = arcSizeScaled Y"
    and "arcSizeScaled Y sdiv 26 = barSizeScaled Y"
    and "barSizeScaled Y sdiv 10 = beatSizeScaled Y"
proof -
  have "0 \<le> Y * SCALER_N" using Yc by (elim disjE) (simp_all add: SCALER_N_def)
  then show "(Y * SCALER_N) sdiv 26 = periodSizeScaled Y"
    by (simp add: sdiv_nonneg periodSizeScaled_def SCALER_N_def)
  note pos = lib_sizes_pos [OF Yc]
  show "periodSizeScaled Y sdiv 10 = arcSizeScaled Y"
    using pos(1) by (simp add: sdiv_nonneg arcSizeScaled_def)
  show "arcSizeScaled Y sdiv 26 = barSizeScaled Y"
    using pos(2) by (simp add: sdiv_nonneg barSizeScaled_def)
  show "barSizeScaled Y sdiv 10 = beatSizeScaled Y"
    using pos(3) by (simp add: sdiv_nonneg beatSizeScaled_def)
qed

lemma encode_lib_eq:
  assumes r: "0 \<le> msSinceYearStart d" "msSinceYearStart d < yearTotalMs (getUTCFullYear d)"
    and du: "Date_UTC (getUTCFullYear d) = Some (yearStart (getUTCFullYear d))"
  defines "y \<equiv> getUTCFullYear d"
  defines "Y \<equiv> yearTotalMs y"
  defines "ms \<equiv> msSinceYearStart d"
  defines "k \<equiv> (ms * 67600) div Y"
  shows "encode_lib d =
    Inr \<lparr> canonical = canon_string y (beat_period k) (beat_arc k) (beat_bar k) (beat_digit k)
                        (msOffset_grid Y ms),
          year = y, period = beat_period k, arc = beat_arc k, bar = beat_bar k,
          beat = beat_digit k, msOffsetInBeat = msOffset_grid Y ms,
          periodLetter = [char_of (65 + beat_period k)], barLetter = [char_of (65 + beat_bar k)],
          readable = [char_of (65 + beat_period k)] @ String_int (beat_arc k) @ '':''
                       @ [char_of (65 + beat_bar k)] @ String_int (beat_digit k),
          arcStartMsInYear =
            (beat_period k * periodSizeScaled Y + beat_arc k * arcSizeScaled Y) div 1000000,
          arcEndMsInYear =
            (beat_period k * periodSizeScaled Y + beat_arc k * arcSizeScaled Y + arcSizeScaled Y)
              div 1000000 \<rparr>"
proof -
  have Yc: "Y = 31536000000 \<or> Y = 31622400000" unfolding Y_def by (rule yearTotalMs_cases)
  have ms: "0 \<le> ms" "ms < Y" using r by (simp_all add: ms_def Y_def y_def)
  have kb: "0 \<le> k" "k < 67600" "Y * k \<le> ms * 67600" "ms * 67600 < Y * k + Y"
    unfolding k_def by (rule grid_index_bounds [OF Yc ms])+
  note dg = beat_digits_range [OF kb(1,2)]
  note pos = lib_sizes_pos [OF Yc]
  note c = lib_cascade [OF Yc kb(3,4,1,2)]
  define p a b t where "p = beat_period k" and "a = beat_arc k" and "b = beat_bar k"
    and "t = beat_digit k"
  define P A B T where "P = periodSizeScaled Y" and "A = arcSizeScaled Y"
    and "B = barSizeScaled Y" and "T = beatSizeScaled Y"
  note c' = c [folded p_def a_def b_def t_def P_def A_def B_def T_def]
  note pos' = pos [folded P_def A_def B_def T_def]
  note dg' = dg [folded p_def a_def b_def t_def]
  have n0: "0 \<le> ms * SCALER_N" using ms by (simp add: SCALER_N_def)
  have ep: "(ms * SCALER_N) sdiv P = p"
    unfolding SCALER_N_def by (rule sdiv_unique_int [OF pos'(1) c'(1,2) dg'(1)])
  have ea: "(ms * SCALER_N - p * P) sdiv A = a"
    unfolding SCALER_N_def by (rule sdiv_unique_int [OF pos'(2) c'(3,4) dg'(3)])
  have eb: "(ms * SCALER_N - p * P - a * A) sdiv B = b"
    unfolding SCALER_N_def by (rule sdiv_unique_int [OF pos'(3) c'(5,6) dg'(5)])
  have et: "(ms * SCALER_N - p * P - a * A - b * B) sdiv T = t"
    unfolding SCALER_N_def by (rule sdiv_unique_int [OF pos'(4) c'(7,8) dg'(7)])
  have "0 \<le> T * t" using pos'(4) dg'(7) by simp
  then have n4: "0 \<le> ms * SCALER_N - p * P - a * A - b * B - t * T"
    using c'(7) unfolding SCALER_N_def by (simp add: mult.commute)
  have L: "ms * SCALER_N - p * P - a * A - b * B - t * T = ms * 1000000 - beatStartScaled_lib Y k"
    by (simp add: beatStartScaled_lib_def unitsScaled_lib_def p_def a_def b_def t_def P_def A_def
        B_def T_def SCALER_N_def)
  have eo: "(ms * SCALER_N - p * P - a * A - b * B - t * T) sdiv SCALER_N = msOffset_grid Y ms"
  proof -
    have "(ms * SCALER_N - p * P - a * A - b * B - t * T) sdiv SCALER_N
            = (ms * SCALER_N - p * P - a * A - b * B - t * T) div 1000000"
      using n4 by (simp add: sdiv_nonneg SCALER_N_def)
    also have "\<dots> = msOffset_grid Y ms"
      unfolding L k_def by (rule lib_offset_eq [OF Yc ms])
    finally show ?thesis .
  qed
  have s0: "0 \<le> p * P + a * A" using dg'(1,3) pos'(1,2) by simp
  have s1: "0 \<le> p * P + a * A + A" using s0 pos'(2) by linarith
  have es: "(p * P + a * A) sdiv SCALER_N = (p * P + a * A) div 1000000"
    using s0 by (simp add: sdiv_nonneg SCALER_N_def)
  have ee: "(p * P + a * A + A) sdiv SCALER_N = (p * P + a * A + A) div 1000000"
    using s1 by (simp add: sdiv_nonneg SCALER_N_def)
  have ms_eq: "d - yearStart y = ms" by (simp add: ms_def msSinceYearStart_def y_def)
  have YY: "(if isLeap y then 366 else 365) * 86400000 = Y" by (simp add: Y_def yearTotalMs_def)
  have tp: "toBase26_lib p = Inr [char_of (65 + p)]"
    unfolding p_def by (rule toBase26_lib_ok [OF dg(1,2)])
  have tb: "toBase26_lib b = Inr [char_of (65 + b)]"
    unfolding b_def by (rule toBase26_lib_ok [OF dg(5,6)])
  show ?thesis
    unfolding encode_lib_def Let_def
    unfolding du option.case
    unfolding y_def [symmetric]
    unfolding ms_eq YY
    unfolding lib_sizes_sdiv [OF Yc]
    unfolding P_def [symmetric] A_def [symmetric] B_def [symmetric] T_def [symmetric]
    unfolding ep ea eb et eo es ee tp tb
    unfolding p_def [symmetric] a_def [symmetric] b_def [symmetric] t_def [symmetric]
    by (simp add: canon_string_def String_fromCharCode_def)
qed

section \<open>Decoding what was encoded\<close>

lemma unitsScaled_lib_upper:
  fixes Y p a b t :: int
  assumes Yc: "Y = 31536000000 \<or> Y = 31622400000"
    and r: "0 \<le> p" "p \<le> 25" "0 \<le> a" "a \<le> 9" "0 \<le> b" "b \<le> 25" "0 \<le> t" "t \<le> 9"
  shows "0 \<le> unitsScaled_lib Y p a b t" and "unitsScaled_lib Y p a b t \<le> 32000000000000000"
proof -
  have "0 \<le> unitsScaled_lib Y p a b t \<and> unitsScaled_lib Y p a b t \<le> 32000000000000000"
    using Yc
  proof
    assume Y: "Y = 31536000000"
    show ?thesis unfolding unitsScaled_lib_def Y lib_sizes_365 using r by linarith
  next
    assume Y: "Y = 31622400000"
    show ?thesis unfolding unitsScaled_lib_def Y lib_sizes_366 using r by linarith
  qed
  then show "0 \<le> unitsScaled_lib Y p a b t"
    and "unitsScaled_lib Y p a b t \<le> 32000000000000000" by blast+
qed

lemma decode_lib_canon:
  assumes y: "1000 \<le> y" "y \<le> 9999" and p: "0 \<le> p" "p \<le> 25" and a: "0 \<le> a" "a \<le> 9"
    and b: "0 \<le> b" "b \<le> 25" and t: "0 \<le> t" "t \<le> 9" and off: "0 \<le> off" "off < 1000000"
  shows "decode_lib (canon_string y p a b t off) =
           Inr (Some (yearStart y
                        + (unitsScaled_lib (yearTotalMs y) p a b t + off * 1000000) div 1000000))"
proof -
  have m: "regex_match canonical_regex (canon_string y p a b t off)"
    by (rule canon_string_match [OF y p a b t off])
  note g = canon_string_groups [OF y a t off, of p b]
  have ny: "Number_digits (fixed_digits 4 (nat y)) = y"
    unfolding Number_digits_fixed using y by simp
  have no: "Number_digits (fixed_digits 6 (nat off)) = off"
    unfolding Number_digits_fixed using off by simp
  have na: "Number_digits [digit_char (nat a)] = a"
    using a by (simp add: Number_digits_single)
  have nt: "Number_digits [digit_char (nat t)] = t"
    using t by (simp add: Number_digits_single)
  have Yc: "yearTotalMs y = 31536000000 \<or> yearTotalMs y = 31622400000"
    by (rule yearTotalMs_cases)
  have YY: "(if isLeap y then 366 else 365) * 86400000 = yearTotalMs y"
    by (simp add: yearTotalMs_def)
  note pos = lib_sizes_pos [OF Yc]
  define U where "U = unitsScaled_lib (yearTotalMs y) p a b t"
  have U: "p * periodSizeScaled (yearTotalMs y) + a * arcSizeScaled (yearTotalMs y)
            + b * barSizeScaled (yearTotalMs y) + t * beatSizeScaled (yearTotalMs y) = U"
    by (simp add: U_def unitsScaled_lib_def)
  have "0 \<le> p * periodSizeScaled (yearTotalMs y)" "0 \<le> a * arcSizeScaled (yearTotalMs y)"
    "0 \<le> b * barSizeScaled (yearTotalMs y)" "0 \<le> t * beatSizeScaled (yearTotalMs y)"
    using p(1) a(1) b(1) t(1) pos by simp_all
  then have U0: "0 \<le> U" unfolding U [symmetric] by linarith
  have e: "(U + off * SCALER_N) sdiv SCALER_N = (U + off * 1000000) div 1000000"
    using U0 off(1) by (simp add: SCALER_N_def sdiv_nonneg)
  have y0: "0 \<le> y" using y(1) by simp
  note DS = Date_UTC_Some [OF y0 y(2)]
  note TC = TimeClip_decoded [OF y0 y(2)
      total_ms_bounds [OF unitsScaled_lib_upper [OF Yc p a b t, folded U_def] off]]
  show ?thesis
    unfolding decode_lib_def g U_def [symmetric]
    using m
    by (simp only: if_False not_True_eq_False simp_thms prod.case Let_def ny no na nt
        charCodeAt0_letter [OF p] charCodeAt0_letter [OF b] YY lib_sizes_sdiv [OF Yc] U e
        DS option.case TC)
qed

text \<open>Round trips of in-range instants.\<close>

lemma valid_instant_yearStart:
  "valid_instant d \<Longrightarrow> yearStart (getUTCFullYear d) + msSinceYearStart d = d"
  by (simp add: msSinceYearStart_def)

lemma round_trip_grid:
  assumes v: "valid_instant d"
  defines "Y \<equiv> yearTotalMs (getUTCFullYear d)"
  defines "k \<equiv> (msSinceYearStart d * 67600) div Y"
  shows "\<exists>r. encode_grid d = Inr r \<and> regex_match canonical_regex (canonical r)
           \<and> 0 \<le> msOffsetInBeat r \<and> msOffsetInBeat r < 1000000
           \<and> decode_grid (canonical r)
               = Inr (Some (d - (if beatStartScaled Y k mod 1000000 = 0 then 0 else 1)))"
proof -
  define y where "y = getUTCFullYear d"
  define ms where "ms = msSinceYearStart d"
  note r = valid_instant_range [OF v]
  have y: "1000 \<le> y" "y \<le> 9999" using v by (simp_all add: valid_instant_def y_def)
  have Yc: "Y = 31536000000 \<or> Y = 31622400000" unfolding Y_def by (rule yearTotalMs_cases)
  have ms: "0 \<le> ms" "ms < Y" using r by (simp_all add: ms_def Y_def)
  have kb: "0 \<le> k" "k < 67600" "Y * k \<le> ms * 67600" "ms * 67600 < Y * k + Y"
    unfolding k_def ms_def [symmetric] by (rule grid_index_bounds [OF Yc ms])+
  note dg = beat_digits_range [OF kb(1,2)]
  have off: "0 \<le> msOffset_grid Y ms" "msOffset_grid Y ms < 1000000"
    unfolding msOffset_grid_def k_def [symmetric, unfolded ms_def [symmetric]]
    by (rule grid_offset_bounds(2,3) [OF Yc kb(1,3,4)])+
  note E = encode_grid_eq [OF r, folded y_def, folded Y_def [unfolded y_def [symmetric]],
      folded ms_def, folded k_def [unfolded ms_def [symmetric]]]
  have D: "decode_grid (canon_string y (beat_period k) (beat_arc k) (beat_bar k) (beat_digit k)
             (msOffset_grid Y ms))
           = Inr (Some (yearStart y
                          + (beatStartScaled Y k + msOffset_grid Y ms * 1000000) div 1000000))"
    using decode_grid_canon [OF y dg(1-8) off] unfolding dg(9) [symmetric] Y_def y_def .
  have R: "(beatStartScaled Y k + msOffset_grid Y ms * 1000000) div 1000000
             = ms - (if beatStartScaled Y k mod 1000000 = 0 then 0 else 1)"
    unfolding msOffset_grid_def k_def [symmetric, unfolded ms_def [symmetric]]
    by (rule round_trip_core)
  have dd: "yearStart y + ms = d" by (simp add: y_def ms_def msSinceYearStart_def)
  have F: "yearStart y + (ms - (if beatStartScaled Y k mod 1000000 = 0 then 0 else 1))
             = d - (if beatStartScaled Y k mod 1000000 = 0 then 0 else 1)"
    using dd by linarith
  show ?thesis
    unfolding E
    using canon_string_match [OF y dg(1-8) off] off D
    unfolding R F by simp
qed


lemma round_trip_lib:
  assumes v: "valid_instant d"
  defines "Y \<equiv> yearTotalMs (getUTCFullYear d)"
  defines "k \<equiv> (msSinceYearStart d * 67600) div Y"
  shows "\<exists>r. encode_lib d = Inr r \<and> regex_match canonical_regex (canonical r)
           \<and> 0 \<le> msOffsetInBeat r \<and> msOffsetInBeat r < 1000000
           \<and> decode_lib (canonical r)
               = Inr (Some (d - (if beatStartScaled_lib Y k mod 1000000 = 0 then 0 else 1)))"
proof -
  define y where "y = getUTCFullYear d"
  define ms where "ms = msSinceYearStart d"
  note r = valid_instant_range [OF v]
  have y: "1000 \<le> y" "y \<le> 9999" using v by (simp_all add: valid_instant_def y_def)
  have Yc: "Y = 31536000000 \<or> Y = 31622400000" unfolding Y_def by (rule yearTotalMs_cases)
  have ms: "0 \<le> ms" "ms < Y" using r by (simp_all add: ms_def Y_def)
  have kb: "0 \<le> k" "k < 67600" "Y * k \<le> ms * 67600" "ms * 67600 < Y * k + Y"
    unfolding k_def ms_def [symmetric] by (rule grid_index_bounds [OF Yc ms])+
  note dg = beat_digits_range [OF kb(1,2)]
  have off: "0 \<le> msOffset_grid Y ms" "msOffset_grid Y ms < 1000000"
    unfolding msOffset_grid_def k_def [symmetric, unfolded ms_def [symmetric]]
    by (rule grid_offset_bounds(2,3) [OF Yc kb(1,3,4)])+
  note E = encode_lib_eq [OF r, folded y_def, folded Y_def [unfolded y_def [symmetric]],
      folded ms_def, folded k_def [unfolded ms_def [symmetric]]]
  have D: "decode_lib (canon_string y (beat_period k) (beat_arc k) (beat_bar k) (beat_digit k)
             (msOffset_grid Y ms))
           = Inr (Some (yearStart y
                          + (beatStartScaled_lib Y k + msOffset_grid Y ms * 1000000) div 1000000))"
    using decode_lib_canon [OF y dg(1-8) off] unfolding beatStartScaled_lib_def Y_def y_def .
  have O: "msOffset_grid Y ms = (ms * 1000000 - beatStartScaled_lib Y k) div 1000000"
    unfolding k_def ms_def [symmetric] by (rule lib_offset_eq [OF Yc ms, symmetric])
  have R: "(beatStartScaled_lib Y k + msOffset_grid Y ms * 1000000) div 1000000
             = ms - (if beatStartScaled_lib Y k mod 1000000 = 0 then 0 else 1)"
    unfolding O by (rule round_trip_core)
  have dd: "yearStart y + ms = d" by (simp add: y_def ms_def msSinceYearStart_def)
  have F: "yearStart y + (ms - (if beatStartScaled_lib Y k mod 1000000 = 0 then 0 else 1))
             = d - (if beatStartScaled_lib Y k mod 1000000 = 0 then 0 else 1)"
    using dd by linarith
  show ?thesis
    unfolding E
    using canon_string_match [OF y dg(1-8) off] off D
    unfolding R F by simp
qed

lemma valid_instant_example: "valid_instant 1749486600000"
  by (simp add: valid_instant_def getUTCFullYear_def Let_def DayFromYear_def msPerDay_def)

section \<open>The two decoders side by side\<close>

lemma lib_units_close_365:
  fixes p a b t S :: int
  assumes r: "0 \<le> p" "p \<le> 25" "0 \<le> a" "a \<le> 10" "0 \<le> b" "b \<le> 25" "0 \<le> t" "t \<le> 9"
    and S: "67600 * S \<le> 31536000000 * (2600 * p + 260 * a + 10 * b + t) * 1000000"
      "31536000000 * (2600 * p + 260 * a + 10 * b + t) * 1000000 < 67600 * S + 67600"
  shows "p * 1212923076923076 + a * 121292307692307 + b * 4665088757396 + t * 466508875739 \<le> S"
    and "S < p * 1212923076923076 + a * 121292307692307 + b * 4665088757396 + t * 466508875739 + 5917"
proof -
  define k where "k = 2600 * p + 260 * a + 10 * b + t"
  have d: "k = 2600 * p + 260 * a + 10 * b + t" by (simp add: k_def)
  note S' = S [folded k_def]
  show "p * 1212923076923076 + a * 121292307692307 + b * 4665088757396 + t * 466508875739 \<le> S" using S'(2) d r by linarith
  show "S < p * 1212923076923076 + a * 121292307692307 + b * 4665088757396 + t * 466508875739 + 5917" using S'(1) d r by linarith
qed

lemma lib_units_close_366:
  fixes p a b t S :: int
  assumes r: "0 \<le> p" "p \<le> 25" "0 \<le> a" "a \<le> 10" "0 \<le> b" "b \<le> 25" "0 \<le> t" "t \<le> 9"
    and S: "67600 * S \<le> 31622400000 * (2600 * p + 260 * a + 10 * b + t) * 1000000"
      "31622400000 * (2600 * p + 260 * a + 10 * b + t) * 1000000 < 67600 * S + 67600"
  shows "p * 1216246153846153 + a * 121624615384615 + b * 4677869822485 + t * 467786982248 \<le> S"
    and "S < p * 1216246153846153 + a * 121624615384615 + b * 4677869822485 + t * 467786982248 + 5917"
proof -
  define k where "k = 2600 * p + 260 * a + 10 * b + t"
  have d: "k = 2600 * p + 260 * a + 10 * b + t" by (simp add: k_def)
  note S' = S [folded k_def]
  show "p * 1216246153846153 + a * 121624615384615 + b * 4677869822485 + t * 467786982248 \<le> S" using S'(2) d r by linarith
  show "S < p * 1216246153846153 + a * 121624615384615 + b * 4677869822485 + t * 467786982248 + 5917" using S'(1) d r by linarith
qed

lemma lib_units_close:
  fixes Y p a b t :: int
  assumes Yc: "Y = 31536000000 \<or> Y = 31622400000"
    and r: "0 \<le> p" "p \<le> 25" "0 \<le> a" "a \<le> 10" "0 \<le> b" "b \<le> 25" "0 \<le> t" "t \<le> 9"
  shows "unitsScaled_lib Y p a b t \<le> beatStartScaled Y (2600 * p + 260 * a + 10 * b + t)"
    and "beatStartScaled Y (2600 * p + 260 * a + 10 * b + t) < unitsScaled_lib Y p a b t + 5917"
proof -
  note S = beatStartScaled_bounds [of Y "2600 * p + 260 * a + 10 * b + t"]
  have "unitsScaled_lib Y p a b t \<le> beatStartScaled Y (2600 * p + 260 * a + 10 * b + t)
      \<and> beatStartScaled Y (2600 * p + 260 * a + 10 * b + t) < unitsScaled_lib Y p a b t + 5917"
    using Yc
  proof
    assume Y: "Y = 31536000000"
    note c = lib_units_close_365 [OF r S [unfolded Y]]
    show ?thesis unfolding unitsScaled_lib_def Y lib_sizes_365 using c by blast
  next
    assume Y: "Y = 31622400000"
    note c = lib_units_close_366 [OF r S [unfolded Y]]
    show ?thesis unfolding unitsScaled_lib_def Y lib_sizes_366 using c by blast
  qed
  then show "unitsScaled_lib Y p a b t \<le> beatStartScaled Y (2600 * p + 260 * a + 10 * b + t)"
    and "beatStartScaled Y (2600 * p + 260 * a + 10 * b + t) < unitsScaled_lib Y p a b t + 5917"
    by blast+
qed

lemma div_close:
  fixes L S c :: int
  assumes "L \<le> S" "S < L + 5917"
  shows "(L + c * 1000000) div 1000000 \<le> (S + c * 1000000) div 1000000"
    and "(S + c * 1000000) div 1000000 \<le> (L + c * 1000000) div 1000000 + 1"
proof -
  define u where "u = (L + c * 1000000) div 1000000"
  define v where "v = (S + c * 1000000) div 1000000"
  have u: "1000000 * u \<le> L + c * 1000000" "L + c * 1000000 < 1000000 * u + 1000000"
    unfolding u_def by (rule div_bounds_int, simp)+
  have v: "1000000 * v \<le> S + c * 1000000" "S + c * 1000000 < 1000000 * v + 1000000"
    unfolding v_def by (rule div_bounds_int, simp)+
  have "1000000 * u < 1000000 * v + 1000000" using u(1) v(2) assms(1) by linarith
  then have "u < v + 1" by simp
  then show "(L + c * 1000000) div 1000000 \<le> (S + c * 1000000) div 1000000"
    unfolding u_def v_def by simp
  have "1000000 * v < 1000000 * u + 2000000" using v(1) u(2) assms(2) by linarith
  then have "v < u + 2" by simp
  then show "(S + c * 1000000) div 1000000 \<le> (L + c * 1000000) div 1000000 + 1"
    unfolding u_def v_def by simp
qed


lemma regex_match_Nil: "regex_match [] s = (s = [])"
  by (cases s) simp_all

lemma regex_match_Cons:
  "regex_match (k # ks) s = (\<exists>c cs. s = c # cs \<and> in_class k c \<and> regex_match ks cs)"
  by (cases s) simp_all

lemma digit_value:
  assumes "in_class Digit c"
  shows "0 \<le> Number_digits [c]" and "Number_digits [c] \<le> 9"
proof -
  have "48 \<le> (of_char c :: nat)" "(of_char c :: nat) \<le> 57" using assms by simp_all
  then have "48 \<le> (of_char c :: int)" "(of_char c :: int) \<le> 57"
    unfolding of_char_int_nat by linarith+
  then show "0 \<le> Number_digits [c]" and "Number_digits [c] \<le> 9"
    by (simp_all add: Number_digits_def)
qed

lemma letter_value:
  assumes "in_class Upper c"
  shows "0 \<le> charCodeAt0 [c] - 65" and "charCodeAt0 [c] - 65 \<le> 25"
proof -
  have "65 \<le> (of_char c :: nat)" "(of_char c :: nat) \<le> 90" using assms by simp_all
  then have "65 \<le> (of_char c :: int)" "(of_char c :: int) \<le> 90"
    unfolding of_char_int_nat by linarith+
  then show "0 \<le> charCodeAt0 [c] - 65" and "charCodeAt0 [c] - 65 \<le> 25"
    by (simp_all add: charCodeAt0_def)
qed

lemma Number_digits_nonneg:
  assumes "list_all (in_class Digit) cs"
  shows "0 \<le> Number_digits cs"
  using assms
proof (induction cs rule: rev_induct)
  case Nil
  show ?case by (simp add: Number_digits_def)
next
  case (snoc c cs)
  then have "0 \<le> Number_digits cs" "0 \<le> Number_digits [c]"
    by (simp_all add: digit_value(1))
  then show ?case unfolding Number_digits_snoc by (simp add: Number_digits_def)
qed

lemma Number_digits_upper:
  assumes "list_all (in_class Digit) cs"
  shows "Number_digits cs < 10 ^ length cs"
  using assms
proof (induction cs rule: rev_induct)
  case Nil
  show ?case by (simp add: Number_digits_def)
next
  case (snoc c cs)
  then have "Number_digits cs < 10 ^ length cs" "Number_digits [c] \<le> 9"
    by (simp_all add: digit_value(2))
  then have "10 * Number_digits cs + Number_digits [c] < 10 * 10 ^ length cs" by linarith
  then show ?case unfolding Number_digits_snoc by (simp add: Number_digits_def)
qed

text \<open>What the two decoders return on a string of the canonical shape.\<close>

lemma decode_fields:
  assumes m: "regex_match canonical_regex s"
  shows "\<exists>y p a b t off. 0 \<le> p \<and> p \<le> 25 \<and> 0 \<le> a \<and> a \<le> 9 \<and> 0 \<le> b \<and> b \<le> 25
           \<and> 0 \<le> t \<and> t \<le> 9 \<and> 0 \<le> off
           \<and> decode_grid s =
                Inr (Some (yearStart y + (beatStartScaled (yearTotalMs y)
                                     (2600 * p + 260 * a + 10 * b + t) + off * 1000000) div 1000000))
           \<and> decode_lib s =
                Inr (Some (yearStart y + (unitsScaled_lib (yearTotalMs y) p a b t + off * 1000000)
                                    div 1000000))"
proof -
  from m obtain c0 c1 c2 c3 c5 c6 c7 c8 c10 c11 c12 c13 c14 c15 where
    s: "s = [c0, c1, c2, c3, CHR ''_'', c5, c6, c7, c8, CHR ''_'', c10, c11, c12, c13, c14, c15]"
    and cl: "in_class Upper c5" "in_class Digit c6" "in_class Upper c7" "in_class Digit c8"
      "list_all (in_class Digit) [c10, c11, c12, c13, c14, c15]"
      "list_all (in_class Digit) [c0, c1, c2, c3]"
    unfolding canonical_regex_def regex_match_Cons regex_match_Nil by auto
  define y where "y = Number_digits [c0, c1, c2, c3]"
  define p where "p = charCodeAt0 [c5] - 65"
  define a where "a = Number_digits [c6]"
  define b where "b = charCodeAt0 [c7] - 65"
  define t where "t = Number_digits [c8]"
  define off where "off = Number_digits [c10, c11, c12, c13, c14, c15]"
  have g: "canonical_groups s = ([c0, c1, c2, c3], [c5], [c6], [c7], [c8],
                                 [c10, c11, c12, c13, c14, c15])"
    unfolding s canonical_groups_def by simp
  have r: "0 \<le> p" "p \<le> 25" "0 \<le> a" "a \<le> 9" "0 \<le> b" "b \<le> 25" "0 \<le> t" "t \<le> 9"
    unfolding p_def a_def b_def t_def
    using letter_value [OF cl(1)] digit_value [OF cl(2)] letter_value [OF cl(3)]
      digit_value [OF cl(4)] by simp_all
  have off: "0 \<le> off" unfolding off_def by (rule Number_digits_nonneg [OF cl(5)])
  have off1: "off < 1000000" unfolding off_def using Number_digits_upper [OF cl(5)] by simp
  have y0: "0 \<le> y" unfolding y_def by (rule Number_digits_nonneg [OF cl(6)])
  have y1: "y \<le> 9999" unfolding y_def using Number_digits_upper [OF cl(6)] by simp
  note DS = Date_UTC_Some [OF y0 y1]
  define Y where "Y = yearTotalMs y"
  have Yc: "Y = 31536000000 \<or> Y = 31622400000" unfolding Y_def by (rule yearTotalMs_cases)
  have Y0: "0 \<le> Y" using Yc by (elim disjE) simp_all
  have YY: "(if isLeap y then 366 else 365) * 86400000 = Y" by (simp add: Y_def yearTotalMs_def)
  define k where "k = 2600 * p + 260 * a + 10 * b + t"
  have k: "p * 2600 + a * 260 + b * 10 + t = k" by (simp add: k_def)
  have k0: "0 \<le> k" using r by (simp add: k_def)
  have S0: "0 \<le> beatStartScaled Y k" by (rule beatStartScaled_nonneg [OF Y0 k0])
  have e1: "(Y * SCALER_N * k) sdiv 67600 = beatStartScaled Y k"
  proof -
    have c: "Y * SCALER_N * k = Y * k * 1000000" by (simp add: SCALER_N_def)
    have n: "0 \<le> Y * k * 1000000" using Y0 k0 by simp
    show ?thesis unfolding c beatStartScaled_def by (rule sdiv_nonneg [OF n]) simp
  qed
  have e2: "(beatStartScaled Y k + off * SCALER_N) sdiv SCALER_N
              = (beatStartScaled Y k + off * 1000000) div 1000000"
    using S0 off by (simp add: SCALER_N_def sdiv_nonneg)
  have k1: "k \<le> 67599" using r by (simp add: k_def)
  note TCg = TimeClip_decoded [OF y0 y1
      total_ms_bounds [OF beatStartScaled_upper [OF Yc k0 k1] off off1]]
  have G: "decode_grid s
             = Inr (Some (yearStart y + (beatStartScaled Y k + off * 1000000) div 1000000))"
    unfolding decode_grid_def g
    using m
    by (simp only: if_False not_True_eq_False simp_thms prod.case Let_def
        y_def [symmetric] p_def [symmetric] a_def [symmetric] b_def [symmetric] t_def [symmetric]
        off_def [symmetric] YY k e1 e2 DS option.case TCg)
  note pos = lib_sizes_pos [OF Yc]
  define U where "U = unitsScaled_lib Y p a b t"
  have U: "p * periodSizeScaled Y + a * arcSizeScaled Y + b * barSizeScaled Y
            + t * beatSizeScaled Y = U"
    by (simp add: U_def unitsScaled_lib_def)
  have "0 \<le> p * periodSizeScaled Y" "0 \<le> a * arcSizeScaled Y" "0 \<le> b * barSizeScaled Y"
    "0 \<le> t * beatSizeScaled Y"
    using r(1,3,5,7) pos by simp_all
  then have U0: "0 \<le> U" unfolding U [symmetric] by linarith
  have e3: "(U + off * SCALER_N) sdiv SCALER_N = (U + off * 1000000) div 1000000"
    using U0 off by (simp add: SCALER_N_def sdiv_nonneg)
  note TCl = TimeClip_decoded [OF y0 y1
      total_ms_bounds [OF unitsScaled_lib_upper [OF Yc r, folded U_def] off off1]]
  have L: "decode_lib s = Inr (Some (yearStart y + (U + off * 1000000) div 1000000))"
    unfolding decode_lib_def g
    using m
    by (simp only: if_False not_True_eq_False simp_thms prod.case Let_def
        y_def [symmetric] p_def [symmetric] a_def [symmetric] b_def [symmetric] t_def [symmetric]
        off_def [symmetric] YY lib_sizes_sdiv [OF Yc] U e3 DS option.case TCl)
  show ?thesis
    using r off G L unfolding k_def U_def Y_def by blast
qed

section \<open>Evaluating the codec on concrete inputs\<close>

lemma digits_nat_numeral:
  "digits_nat (numeral k) =
     (if (numeral k :: nat) < 10 then [digit_char (numeral k)]
      else digits_nat (numeral k div 10) @ [digit_char (numeral k mod 10)])"
  by (rule digits_nat.simps)

lemma digits_nat_small: "digits_nat 0 = ''0''" "digits_nat 1 = ''1''" "digits_nat (Suc 0) = ''1''"
  by (simp_all add: digits_nat.simps [of 0] digits_nat.simps [of 1] digits_nat.simps [of "Suc 0"]
      digit_char_def char_of_eq_iff)

lemma sdiv_smod_one:
  "(1::int) sdiv numeral n = 1 div numeral n" "(1::int) smod numeral n = 1 mod numeral n"
  by (simp_all add: sdiv_nonneg smod_nonneg)

lemma replicate_numeral_step: "replicate (numeral k) c = c # replicate (numeral k - 1) c"
  by (simp add: numeral_eq_Suc)

lemmas codec_eval =
  digits_nat_numeral digits_nat_small digit_char_def char_of_eq_iff String_int_def padStart_def
  String_fromCharCode_def charCodeAt0_def Number_digits_def canonical_regex_def
  canonical_groups_def SCALER_N_def isLeap_def getUTCFullYear_def Date_UTC_def TimeClip_def
  TimeFromYear_def DayFromYear_def msPerDay_def toBase26_grid_def toBase26_lib_def Let_def
  sdiv_smod_one replicate_numeral_step

section \<open>Decoding: the format error\<close>

text \<open>
  Claim C4.  Both decoders raise their format error, whose message quotes the input string,
  exactly when the input does not match the canonical regular expression; on every string that
  matches they return a valid date and raise nothing, whatever the values of the parsed
  fields.
\<close>

theorem decode_format_error:
  "(\<not> regex_match canonical_regex s \<longrightarrow>
      decode_grid s = Inl (Error (''Bad AlphaDec canonical string: '' @ [char_of (34::nat)] @ s
                                    @ [char_of (34::nat)]))
      \<and> decode_lib s = Inl (Error (''Bad AlphaDec canonical string (format YYYY_PaBt_MMMMMM): ''
                                    @ [char_of (34::nat)] @ s @ [char_of (34::nat)])))
   \<and> (regex_match canonical_regex s \<longrightarrow>
        (\<exists>t. decode_grid s = Inr (Some t)) \<and> (\<exists>t. decode_lib s = Inr (Some t)))"
proof (intro conjI impI)
  assume "\<not> regex_match canonical_regex s"
  then show "decode_grid s = Inl (Error (''Bad AlphaDec canonical string: ''
      @ [char_of (34::nat)] @ s @ [char_of (34::nat)]))"
    by (simp add: decode_grid_def)
next
  assume "\<not> regex_match canonical_regex s"
  then show "decode_lib s = Inl (Error (''Bad AlphaDec canonical string (format YYYY_PaBt_MMMMMM): ''
      @ [char_of (34::nat)] @ s @ [char_of (34::nat)]))"
    by (simp add: decode_lib_def)
next
  assume "regex_match canonical_regex s"
  from decode_fields [OF this] show "\<exists>t. decode_grid s = Inr (Some t)" by blast
next
  assume "regex_match canonical_regex s"
  from decode_fields [OF this] show "\<exists>t. decode_lib s = Inr (Some t)" by blast
qed

theorem decode_format_error_witness:
  "regex_match canonical_regex ''2025_L3T5_000000''
   \<and> (\<exists>t. decode_grid ''2025_L3T5_000000'' = Inr (Some t))
   \<and> (\<exists>t. decode_lib ''2025_L3T5_000000'' = Inr (Some t))
   \<and> \<not> regex_match canonical_regex ''2025_19T5_000000''
   \<and> decode_grid ''2025_19T5_000000''
       = Inl (Error (''Bad AlphaDec canonical string: '' @ [char_of (34::nat)]
                       @ ''2025_19T5_000000'' @ [char_of (34::nat)]))"
  using decode_format_error [of "''2025_L3T5_000000''"]
    decode_format_error [of "''2025_19T5_000000''"]
  by (simp add: canonical_regex_def)

section \<open>Decoding accepts offsets beyond the beat\<close>

lemma decode_grid_overlong: "decode_grid ''2025_A0A0_999999'' = Inr (Some 1735690599999)"
  by (simp add: decode_grid_def codec_eval)

lemma decode_lib_overlong: "decode_lib ''2025_A0A0_999999'' = Inr (Some 1735690599999)"
  by (simp add: decode_lib_def codec_eval)

lemma encode_grid_overlong:
  "map_sum id canonical (encode_grid 1735690599999) = Inr ''2025_A0A2_066981''"
  by (simp add: encode_grid_def codec_eval)

lemma encode_lib_overlong:
  "map_sum id canonical (encode_lib 1735690599999) = Inr ''2025_A0A2_066981''"
  by (simp add: encode_lib_def codec_eval)

lemma decode_grid_next_year: "decode_grid ''2025_Z9Z9_999999'' = Inr (Some 1767226133490)"
  by (simp add: decode_grid_def codec_eval)

lemma decode_lib_next_year: "decode_lib ''2025_Z9Z9_999999'' = Inr (Some 1767226133490)"
  by (simp add: decode_lib_def codec_eval)

lemma encode_grid_next_year:
  "map_sum id canonical (encode_grid 1767226133490) = Inr ''2026_A0A1_066981''"
  by (simp add: encode_grid_def codec_eval)

lemma encode_lib_next_year:
  "map_sum id canonical (encode_lib 1767226133490) = Inr ''2026_A0A1_066981''"
  by (simp add: encode_lib_def codec_eval)

text \<open>
  Claim C9.  Encoding does not invert decoding on all strings of the canonical shape.  The
  string \<^verbatim>\<open>2025_A0A0_999999\<close> matches; its millisecond field 999999 exceeds the width of a beat
  of 2025 (466508 whole milliseconds); both decoders accept it and return an instant two beats
  later, which encodes to \<^verbatim>\<open>2025_A0A2_066981\<close>.  The string \<^verbatim>\<open>2025_Z9Z9_999999\<close> decodes to an
  instant of the year 2026.
\<close>

theorem encode_decode_not_identity:
  "regex_match canonical_regex ''2025_A0A0_999999''
   \<and> yearTotalMs 2025 div 67600 < 999999
   \<and> decode_grid ''2025_A0A0_999999'' = Inr (Some 1735690599999)
   \<and> map_sum id canonical (encode_grid 1735690599999) = Inr ''2025_A0A2_066981''
   \<and> decode_lib ''2025_A0A0_999999'' = Inr (Some 1735690599999)
   \<and> map_sum id canonical (encode_lib 1735690599999) = Inr ''2025_A0A2_066981''
   \<and> ''2025_A0A2_066981'' \<noteq> ''2025_A0A0_999999''
   \<and> regex_match canonical_regex ''2025_Z9Z9_999999''
   \<and> decode_grid ''2025_Z9Z9_999999'' = Inr (Some 1767226133490)
   \<and> decode_lib ''2025_Z9Z9_999999'' = Inr (Some 1767226133490)
   \<and> getUTCFullYear 1767226133490 = 2026
   \<and> map_sum id canonical (encode_grid 1767226133490) = Inr ''2026_A0A1_066981''
   \<and> map_sum id canonical (encode_lib 1767226133490) = Inr ''2026_A0A1_066981''"
  unfolding decode_grid_overlong decode_lib_overlong encode_grid_overlong encode_lib_overlong
    decode_grid_next_year decode_lib_next_year encode_grid_next_year encode_lib_next_year
  by (simp add: canonical_regex_def yearTotalMs_def isLeap_def getUTCFullYear_def Let_def
      DayFromYear_def msPerDay_def)

section \<open>Round trip\<close>

text \<open>
  Claim C1.  For every instant of a year that the canonical format covers, both encoders
  return a result whose canonical string the matching decoder accepts, and the decoded instant
  differs from the encoded one by at most one millisecond.
\<close>

theorem round_trip_within_1ms:
  assumes "valid_instant d"
  shows "(\<exists>r t. encode_grid d = Inr r \<and> decode_grid (canonical r) = Inr (Some t) \<and> \<bar>t - d\<bar> \<le> 1)
       \<and> (\<exists>r t. encode_lib d = Inr r \<and> decode_lib (canonical r) = Inr (Some t) \<and> \<bar>t - d\<bar> \<le> 1)"
proof
  from round_trip_grid [OF assms] obtain r where
    "encode_grid d = Inr r" and
    "decode_grid (canonical r) = Inr (Some (d - (if beatStartScaled (yearTotalMs (getUTCFullYear d))
        ((msSinceYearStart d * 67600) div yearTotalMs (getUTCFullYear d)) mod 1000000 = 0
        then 0 else 1)))"
    by blast
  then show "\<exists>r t. encode_grid d = Inr r \<and> decode_grid (canonical r) = Inr (Some t) \<and> \<bar>t - d\<bar> \<le> 1"
    by (intro exI conjI) (assumption, assumption, simp)
next
  from round_trip_lib [OF assms] obtain r where
    "encode_lib d = Inr r" and
    "decode_lib (canonical r) = Inr (Some (d - (if beatStartScaled_lib (yearTotalMs (getUTCFullYear d))
        ((msSinceYearStart d * 67600) div yearTotalMs (getUTCFullYear d)) mod 1000000 = 0
        then 0 else 1)))"
    by blast
  then show "\<exists>r t. encode_lib d = Inr r \<and> decode_lib (canonical r) = Inr (Some t) \<and> \<bar>t - d\<bar> \<le> 1"
    by (intro exI conjI) (assumption, assumption, simp)
qed

theorem round_trip_within_1ms_witness:
  "valid_instant 1749486600000
   \<and> (\<exists>r t. encode_grid 1749486600000 = Inr r \<and> decode_grid (canonical r) = Inr (Some t)
         \<and> \<bar>t - 1749486600000\<bar> \<le> 1)
   \<and> (\<exists>r t. encode_lib 1749486600000 = Inr r \<and> decode_lib (canonical r) = Inr (Some t)
         \<and> \<bar>t - 1749486600000\<bar> \<le> 1)"
  using round_trip_within_1ms [OF valid_instant_example] valid_instant_example by simp

text \<open>
  Claim C10.  The round-trip error is one-sided: the decoded instant is never later than the
  encoded one, and at most one millisecond earlier.
\<close>

theorem round_trip_never_later:
  assumes "valid_instant d"
  shows "(\<exists>r t. encode_grid d = Inr r \<and> decode_grid (canonical r) = Inr (Some t) \<and> t \<le> d \<and> d - t \<le> 1)
       \<and> (\<exists>r t. encode_lib d = Inr r \<and> decode_lib (canonical r) = Inr (Some t) \<and> t \<le> d \<and> d - t \<le> 1)"
proof
  from round_trip_grid [OF assms] obtain r where
    "encode_grid d = Inr r" and
    "decode_grid (canonical r) = Inr (Some (d - (if beatStartScaled (yearTotalMs (getUTCFullYear d))
        ((msSinceYearStart d * 67600) div yearTotalMs (getUTCFullYear d)) mod 1000000 = 0
        then 0 else 1)))"
    by blast
  then show "\<exists>r t. encode_grid d = Inr r \<and> decode_grid (canonical r) = Inr (Some t) \<and> t \<le> d \<and> d - t \<le> 1"
    by (intro exI conjI) (assumption, assumption, simp_all)
next
  from round_trip_lib [OF assms] obtain r where
    "encode_lib d = Inr r" and
    "decode_lib (canonical r) = Inr (Some (d - (if beatStartScaled_lib (yearTotalMs (getUTCFullYear d))
        ((msSinceYearStart d * 67600) div yearTotalMs (getUTCFullYear d)) mod 1000000 = 0
        then 0 else 1)))"
    by blast
  then show "\<exists>r t. encode_lib d = Inr r \<and> decode_lib (canonical r) = Inr (Some t) \<and> t \<le> d \<and> d - t \<le> 1"
    by (intro exI conjI) (assumption, assumption, simp_all)
qed

theorem round_trip_never_later_witness:
  "valid_instant 1749486600000
   \<and> (\<exists>r t. encode_grid 1749486600000 = Inr r \<and> decode_grid (canonical r) = Inr (Some t)
         \<and> t \<le> 1749486600000 \<and> 1749486600000 - t \<le> 1)
   \<and> (\<exists>r t. encode_lib 1749486600000 = Inr r \<and> decode_lib (canonical r) = Inr (Some t)
         \<and> t \<le> 1749486600000 \<and> 1749486600000 - t \<le> 1)"
  using round_trip_never_later [OF valid_instant_example] valid_instant_example by simp

section \<open>Format of the canonical string\<close>

lemma length_canon_string:
  assumes "1000 \<le> y" "y \<le> 9999" "0 \<le> a" "a \<le> 9" "0 \<le> t" "t \<le> 9" "0 \<le> off" "off < 1000000"
  shows "length (canon_string y p a b t off) = 16"
  unfolding canon_string_fixed [OF assms] by (simp add: length_fixed_digits)

text \<open>
  Claim C5.  For every instant of a year that the format covers, the canonical string of both
  encoders matches the canonical regular expression (so it has 16 characters: four year digits,
  an underscore, letter, digit, letter, digit, an underscore and six digits), and the
  millisecond offset in the beat is below 1000000, so that padding it to six digits keeps
  every digit: the last six characters are the offset written in six digits.
\<close>

theorem canonical_matches_regex:
  assumes "valid_instant d"
  shows "(\<exists>r. encode_grid d = Inr r \<and> regex_match canonical_regex (canonical r)
            \<and> 0 \<le> msOffsetInBeat r \<and> msOffsetInBeat r < 1000000
            \<and> drop 10 (canonical r) = fixed_digits 6 (nat (msOffsetInBeat r)))
       \<and> (\<exists>r. encode_lib d = Inr r \<and> regex_match canonical_regex (canonical r)
            \<and> 0 \<le> msOffsetInBeat r \<and> msOffsetInBeat r < 1000000
            \<and> drop 10 (canonical r) = fixed_digits 6 (nat (msOffsetInBeat r)))"
proof -
  define y where "y = getUTCFullYear d"
  define Y where "Y = yearTotalMs y"
  define ms where "ms = msSinceYearStart d"
  define k where "k = (ms * 67600) div Y"
  note r = valid_instant_range [OF assms]
  have y: "1000 \<le> y" "y \<le> 9999" using assms by (simp_all add: valid_instant_def y_def)
  have Yc: "Y = 31536000000 \<or> Y = 31622400000" unfolding Y_def by (rule yearTotalMs_cases)
  have ms: "0 \<le> ms" "ms < Y" using r by (simp_all add: ms_def Y_def y_def)
  have kb: "0 \<le> k" "k < 67600" "Y * k \<le> ms * 67600" "ms * 67600 < Y * k + Y"
    unfolding k_def by (rule grid_index_bounds [OF Yc ms])+
  note dg = beat_digits_range [OF kb(1,2)]
  have off: "0 \<le> msOffset_grid Y ms" "msOffset_grid Y ms < 1000000"
    unfolding msOffset_grid_def k_def [symmetric]
    by (rule grid_offset_bounds(2,3) [OF Yc kb(1,3,4)])+
  note m = canon_string_match [OF y dg(1-8) off]
  have g: "drop 10 (canon_string y (beat_period k) (beat_arc k) (beat_bar k) (beat_digit k)
             (msOffset_grid Y ms)) = fixed_digits 6 (nat (msOffset_grid Y ms))"
    using canon_string_groups [OF y dg(3,4,7,8) off, of "beat_period k" "beat_bar k"]
    by (simp add: canonical_groups_def)
  note Eg = encode_grid_eq [OF r, folded y_def, folded Y_def, folded ms_def, folded k_def]
  note El = encode_lib_eq [OF r, folded y_def, folded Y_def, folded ms_def, folded k_def]
  show ?thesis unfolding Eg El using m off g by simp
qed

theorem canonical_matches_regex_witness:
  "valid_instant 1749486600000
   \<and> (\<exists>r. encode_grid 1749486600000 = Inr r \<and> regex_match canonical_regex (canonical r)
         \<and> msOffsetInBeat r < 1000000)
   \<and> (\<exists>r. encode_lib 1749486600000 = Inr r \<and> regex_match canonical_regex (canonical r)
         \<and> msOffsetInBeat r < 1000000)"
  using canonical_matches_regex [OF valid_instant_example] valid_instant_example by blast

section \<open>The letter indices\<close>

text \<open>
  Where \<^verbatim>\<open>Date.UTC\<close> returns the start of the instant's own year, the offset in the year is
  in range, the period and bar indices lie between 0 and 25 and both encoders return a result.
\<close>

lemma encoders_return:
  assumes c: "Date_UTC (getUTCFullYear d) = Some (TimeFromYear (getUTCFullYear d))"
  shows "(\<exists>r. encode_grid d = Inr r \<and> 0 \<le> period r \<and> period r \<le> 25 \<and> 0 \<le> bar r \<and> bar r \<le> 25
            \<and> toBase26_grid (period r) = Inr (periodLetter r)
            \<and> toBase26_grid (bar r) = Inr (barLetter r))
       \<and> (\<exists>r. encode_lib d = Inr r \<and> 0 \<le> period r \<and> period r \<le> 25 \<and> 0 \<le> bar r \<and> bar r \<le> 25
            \<and> toBase26_lib (period r) = Inr (periodLetter r)
            \<and> toBase26_lib (bar r) = Inr (barLetter r))"
proof -
  define y where "y = getUTCFullYear d"
  define Y where "Y = yearTotalMs y"
  define ms where "ms = msSinceYearStart d"
  define k where "k = (ms * 67600) div Y"
  have "TimeClip (yearStart (getUTCFullYear d)) = Some (TimeFromYear (getUTCFullYear d))"
    using c unfolding Date_UTC_yearStart .
  then have ys: "yearStart (getUTCFullYear d) = TimeFromYear (getUTCFullYear d)"
    by (simp add: TimeClip_def split: if_splits)
  have c': "Date_UTC (getUTCFullYear d) = Some (yearStart (getUTCFullYear d))"
    unfolding ys by (rule c)
  have r: "0 \<le> msSinceYearStart d" "msSinceYearStart d < yearTotalMs (getUTCFullYear d)"
  proof -
    show "0 \<le> msSinceYearStart d"
      unfolding msSinceYearStart_def ys using getUTCFullYear_lower [of d] by simp
    show "msSinceYearStart d < yearTotalMs (getUTCFullYear d)"
      unfolding msSinceYearStart_def ys yearTotalMs_def
      using getUTCFullYear_upper [of d] unfolding TimeFromYear_step by simp
  qed
  have Yc: "Y = 31536000000 \<or> Y = 31622400000" unfolding Y_def by (rule yearTotalMs_cases)
  have ms: "0 \<le> ms" "ms < Y" using r by (simp_all add: ms_def Y_def y_def)
  have kb: "0 \<le> k" "k < 67600"
    unfolding k_def by (rule grid_index_bounds(1,2) [OF Yc ms])+
  note dg = beat_digits_range [OF kb(1,2)]
  note Eg = encode_grid_eq [OF r c', folded y_def, folded Y_def, folded ms_def, folded k_def]
  note El = encode_lib_eq [OF r c', folded y_def, folded Y_def, folded ms_def, folded k_def]
  show ?thesis
    unfolding Eg El
    using dg(1,2,5,6) toBase26_grid_ok [OF dg(1,2)] toBase26_grid_ok [OF dg(5,6)]
      toBase26_lib_ok [OF dg(1,2)] toBase26_lib_ok [OF dg(5,6)]
    by simp
qed

text \<open>
  The earliest time value, -8640000000000000, is an instant of the year -271821, whose
  January 1 is not a time value: \<^verbatim>\<open>Date.UTC\<close> gives \<^verbatim>\<open>NaN\<close> there and the conversion to
  BigInt raises a \<^verbatim>\<open>RangeError\<close> in both encoders.
\<close>

lemma encode_earliest_instant:
  "getUTCFullYear (- 8640000000000000) = - 271821"
  "Date_UTC (- 271821) = None"
  "encode_grid (- 8640000000000000) = Inl RangeError"
  "encode_lib (- 8640000000000000) = Inl RangeError"
  by (simp_all add: encode_grid_def encode_lib_def getUTCFullYear_def Let_def DayFromYear_def
      msPerDay_def TimeFromYear_def Date_UTC_def TimeClip_def)

lemma encode_grid_year_50:
  "encode_grid (- 60575731200000) = Inl (Error ''Invalid index for Base26.'')"
  by (simp add: encode_grid_def codec_eval)

lemma encode_lib_year_50:
  "encode_lib (- 60575731200000) = Inl (Error ''Invalid index for Base26 single char conversion.'')"
  by (simp add: encode_lib_def codec_eval)

text \<open>
  Claim C7.  The invalid-index error is reachable.  The instant 0050-06-07T00:00:00.000Z, time
  value -60575731200000, lies 13564800000 ms after the start of the year 50, inside the
  31536000000 ms of that year.  \<^verbatim>\<open>Date.UTC(50, 0, 1)\<close> is the start of 1950, so both encoders
  compute a negative offset and a negative period index, and the letter helper raises.
\<close>

theorem invalid_index_reached:
  "getUTCFullYear (- 60575731200000) = 50
   \<and> - 60575731200000 - TimeFromYear 50 = 13564800000
   \<and> 13564800000 < yearTotalMs 50
   \<and> Date_UTC 50 = Some (TimeFromYear 1950)
   \<and> encode_grid (- 60575731200000) = Inl (Error ''Invalid index for Base26.'')
   \<and> encode_lib (- 60575731200000)
       = Inl (Error ''Invalid index for Base26 single char conversion.'')"
  unfolding encode_grid_year_50 encode_lib_year_50
  by (simp add: getUTCFullYear_def Let_def DayFromYear_def msPerDay_def TimeFromYear_def
      yearTotalMs_def isLeap_def Date_UTC_def TimeClip_def)

section \<open>The start of a year\<close>

lemma canon_string_zero: "canon_string y 0 0 0 0 0 = String_int y @ ''_A0A0_000000''"
proof -
  have rep: "replicate 5 CHR ''0'' = ''00000''" by (simp add: numeral_eq_Suc)
  show ?thesis
    by (simp add: canon_string_def String_fromCharCode_def padStart_def char_of_eq_iff
        digits_nat_small String_int_def rep)
qed

text \<open>
  Where \<^verbatim>\<open>Date.UTC(y, 0, 1)\<close> is the start of the year \<open>y\<close>, that instant has beat index 0
  and both encoders give it the canonical string made of the year, the unit block
  \<^verbatim>\<open>A0A0\<close> and the millisecond suffix \<^verbatim>\<open>000000\<close>.
\<close>

lemma year_start_canonical:
  assumes c: "Date_UTC y = Some (TimeFromYear y)"
  shows "getUTCFullYear (TimeFromYear y) = y
       \<and> totalBeatIndex (TimeFromYear y) = 0
       \<and> map_sum id canonical (encode_grid (TimeFromYear y)) = Inr (String_int y @ ''_A0A0_000000'')
       \<and> map_sum id canonical (encode_lib (TimeFromYear y)) = Inr (String_int y @ ''_A0A0_000000'')"
proof -
  define d where "d = TimeFromYear y"
  have gy: "getUTCFullYear d = y" unfolding d_def by (rule getUTCFullYear_TimeFromYear)
  have "TimeClip (yearStart y) = Some (TimeFromYear y)"
    using c unfolding Date_UTC_yearStart .
  then have D: "yearStart y = d"
    by (simp add: TimeClip_def d_def split: if_splits)
  have c': "Date_UTC (getUTCFullYear d) = Some (yearStart (getUTCFullYear d))"
    unfolding gy D using c by (simp add: d_def)
  have ms: "msSinceYearStart d = 0" by (simp add: msSinceYearStart_def gy D)
  have Yp: "0 < yearTotalMs y" by (simp add: yearTotalMs_def)
  have r: "0 \<le> msSinceYearStart d" "msSinceYearStart d < yearTotalMs (getUTCFullYear d)"
    unfolding ms gy using Yp by simp_all
  have z: "beat_period 0 = 0" "beat_arc 0 = 0" "beat_bar 0 = 0" "beat_digit 0 = 0"
    by (simp_all add: beat_period_def beat_arc_def beat_bar_def beat_digit_def)
  have o: "msOffset_grid (yearTotalMs y) 0 = 0"
    by (simp add: msOffset_grid_def beatStartScaled_0)
  have k: "totalBeatIndex d = 0" by (simp add: totalBeatIndex_def ms)
  have Eg: "map_sum id canonical (encode_grid d) = Inr (String_int y @ ''_A0A0_000000'')"
    unfolding encode_grid_eq [OF r c'] unfolding ms gy
    by (simp add: z o canon_string_zero)
  have El: "map_sum id canonical (encode_lib d) = Inr (String_int y @ ''_A0A0_000000'')"
    unfolding encode_lib_eq [OF r c'] unfolding ms gy
    by (simp add: z o canon_string_zero)
  show ?thesis using gy k Eg El unfolding d_def by simp
qed

lemma encode_grid_start_50:
  "encode_grid (- 60589296000000) = Inl (Error ''Invalid index for Base26.'')"
  by (simp add: encode_grid_def codec_eval)

lemma encode_lib_start_50:
  "encode_lib (- 60589296000000) = Inl (Error ''Invalid index for Base26 single char conversion.'')"
  by (simp add: encode_lib_def codec_eval)

text \<open>
  Claim C8.  The claim fails for the year 50.  Its January 1, 00:00:00.000 UTC is the time
  value -60589296000000, an instant of the year 50; \<^verbatim>\<open>Date.UTC(50, 0, 1)\<close> is the start of
  1950, and both encoders raise the invalid-index error instead of returning a canonical
  string with the unit block \<^verbatim>\<open>A0A0\<close>.
\<close>

theorem year_start_raises:
  "TimeFromYear 50 = - 60589296000000
   \<and> getUTCFullYear (- 60589296000000) = 50
   \<and> Date_UTC 50 = Some (TimeFromYear 1950)
   \<and> encode_grid (- 60589296000000) = Inl (Error ''Invalid index for Base26.'')
   \<and> encode_lib (- 60589296000000)
       = Inl (Error ''Invalid index for Base26 single char conversion.'')"
  unfolding encode_grid_start_50 encode_lib_start_50
  by (simp add: getUTCFullYear_def Let_def DayFromYear_def msPerDay_def TimeFromYear_def
      Date_UTC_def TimeClip_def)

section \<open>Order of canonical strings\<close>

lemma str_less_prefix: "str_less (p @ a) (p @ b) = str_less a b"
  by (induction p) simp_all

lemma str_less_append:
  "length a1 = length a2 \<Longrightarrow>
     str_less (a1 @ b1) (a2 @ b2) = (str_less a1 a2 \<or> (a1 = a2 \<and> str_less b1 b2))"
  by (induction a1 a2 rule: list_induct2) auto

lemma str_less_digit:
  "m < 10 \<Longrightarrow> n < 10 \<Longrightarrow> str_less [digit_char m] [digit_char n] = (m < n)"
  by (simp add: of_char_digit_char)

lemma fixed_digits_mono:
  "m < n \<Longrightarrow> n < 10 ^ w \<Longrightarrow> str_less (fixed_digits w m) (fixed_digits w n)"
proof (induction w arbitrary: m n)
  case 0
  then show ?case by simp
next
  case (Suc w)
  have len: "length (fixed_digits w (m div 10)) = length (fixed_digits w (n div 10))"
    by (simp add: length_fixed_digits)
  have n10: "n div 10 < 10 ^ w" using Suc.prems(2) by (simp add: less_mult_imp_div_less)
  have le: "m div 10 \<le> n div 10" using Suc.prems(1) by (simp add: div_le_mono)
  show ?case
  proof (cases "m div 10 < n div 10")
    case True
    then have "str_less (fixed_digits w (m div 10)) (fixed_digits w (n div 10))"
      using n10 by (rule Suc.IH)
    then show ?thesis by (simp add: str_less_append [OF len])
  next
    case False
    then have e: "m div 10 = n div 10" using le by simp
    have "m = 10 * (m div 10) + m mod 10" "n = 10 * (n div 10) + n mod 10" by simp_all
    then have "m mod 10 < n mod 10" using Suc.prems(1) e by linarith
    moreover have "m mod 10 < 10" "n mod 10 < 10" by simp_all
    ultimately have "str_less [digit_char (m mod 10)] [digit_char (n mod 10)]"
      by (simp only: str_less_digit)
    then show ?thesis by (simp add: e str_less_prefix)
  qed
qed

lemma beat_digits_lex:
  fixes p1 a1 b1 t1 p2 a2 b2 t2 :: int
  assumes lt: "2600 * p1 + 260 * a1 + 10 * b1 + t1 < 2600 * p2 + 260 * a2 + 10 * b2 + t2"
    and r1: "0 \<le> a1" "a1 \<le> 9" "0 \<le> b1" "b1 \<le> 25" "0 \<le> t1" "t1 \<le> 9"
    and r2: "0 \<le> a2" "a2 \<le> 9" "0 \<le> b2" "b2 \<le> 25" "0 \<le> t2" "t2 \<le> 9"
  shows "p1 < p2 \<or> (p1 = p2 \<and> (a1 < a2 \<or> (a1 = a2 \<and> (b1 < b2 \<or> (b1 = b2 \<and> t1 < t2)))))"
proof -
  have p: "p1 \<le> p2" using lt r1 r2 by linarith
  have a: "p1 = p2 \<Longrightarrow> a1 \<le> a2" using lt r1 r2 by linarith
  have b: "p1 = p2 \<Longrightarrow> a1 = a2 \<Longrightarrow> b1 \<le> b2" using lt r1 r2 by linarith
  have t: "p1 = p2 \<Longrightarrow> a1 = a2 \<Longrightarrow> b1 = b2 \<Longrightarrow> t1 < t2" using lt by linarith
  show ?thesis using p a b t by force
qed

lemma str_less_letter:
  fixes p q :: int
  assumes "0 \<le> p" "p \<le> 25" "0 \<le> q" "q \<le> 25"
  shows "str_less (char_of (65 + p) # xs) (char_of (65 + q) # ys)
           = (p < q \<or> (p = q \<and> str_less xs ys))"
proof -
  have "(65 + p) mod 256 = 65 + p" "(65 + q) mod 256 = 65 + q" using assms by simp_all
  then have e: "(char_of (65 + p) = char_of (65 + q)) = (p = q)"
    by simp
  show ?thesis
    unfolding str_less.simps e of_char_letter_nat [OF assms(1,2)] of_char_letter_nat [OF assms(3,4)]
    using assms by auto
qed

lemma str_less_digit_Cons:
  assumes "0 \<le> a" "a \<le> 9" "0 \<le> c" "c \<le> 9"
  shows "str_less (digit_char (nat a) # xs) (digit_char (nat c) # ys)
           = (a < c \<or> (a = c \<and> str_less xs ys))"
proof -
  have n: "nat a < 10" "nat c < 10" using assms by linarith+
  have e: "(digit_char (nat a) = digit_char (nat c)) = (a = c)"
    using assms by (auto simp: digit_char_def)
  show ?thesis
    unfolding str_less.simps e of_char_digit_char [OF n(1)] of_char_digit_char [OF n(2)]
    using assms by auto
qed

lemma canon_string_less:
  assumes y: "1000 \<le> y" "y \<le> 9999"
    and r1: "0 \<le> p1" "p1 \<le> 25" "0 \<le> a1" "a1 \<le> 9" "0 \<le> b1" "b1 \<le> 25" "0 \<le> t1" "t1 \<le> 9"
      "0 \<le> o1" "o1 < 1000000"
    and r2: "0 \<le> p2" "p2 \<le> 25" "0 \<le> a2" "a2 \<le> 9" "0 \<le> b2" "b2 \<le> 25" "0 \<le> t2" "t2 \<le> 9"
      "0 \<le> o2" "o2 < 1000000"
    and lt: "2600 * p1 + 260 * a1 + 10 * b1 + t1 < 2600 * p2 + 260 * a2 + 10 * b2 + t2
             \<or> (p1 = p2 \<and> a1 = a2 \<and> b1 = b2 \<and> t1 = t2 \<and> o1 < o2)"
  shows "str_less (canon_string y p1 a1 b1 t1 o1) (canon_string y p2 a2 b2 t2 o2)"
proof -
  have L: "p1 < p2 \<or> (p1 = p2 \<and> (a1 < a2 \<or> (a1 = a2 \<and> (b1 < b2 \<or> (b1 = b2 \<and>
            (t1 < t2 \<or> (t1 = t2 \<and> o1 < o2)))))))"
    using lt
  proof
    assume "2600 * p1 + 260 * a1 + 10 * b1 + t1 < 2600 * p2 + 260 * a2 + 10 * b2 + t2"
    from beat_digits_lex [OF this r1(3-8) r2(3-8)] show ?thesis by blast
  next
    assume "p1 = p2 \<and> a1 = a2 \<and> b1 = b2 \<and> t1 = t2 \<and> o1 < o2"
    then show ?thesis by blast
  qed
  have O: "o1 < o2 \<Longrightarrow> str_less (fixed_digits 6 (nat o1)) (fixed_digits 6 (nat o2))"
    using r1(9) r2(10) by (intro fixed_digits_mono) simp_all
  show ?thesis
    unfolding canon_string_fixed [OF y r1(3,4,7,8,9,10)] canon_string_fixed [OF y r2(3,4,7,8,9,10)]
    unfolding str_less_prefix
    unfolding str_less.simps(4) [of "CHR ''_''"]
    unfolding str_less_letter [OF r1(1,2) r2(1,2)] str_less_digit_Cons [OF r1(3,4) r2(3,4)]
      str_less_letter [OF r1(5,6) r2(5,6)] str_less_digit_Cons [OF r1(7,8) r2(7,8)]
    using L O by auto
qed


lemma grid_position_mono:
  fixes Y ms1 ms2 :: int
  assumes Yc: "Y = 31536000000 \<or> Y = 31622400000" and lt: "ms1 < ms2"
  defines "k1 \<equiv> (ms1 * 67600) div Y" and "k2 \<equiv> (ms2 * 67600) div Y"
  shows "k1 < k2 \<or> (k1 = k2 \<and> msOffset_grid Y ms1 < msOffset_grid Y ms2)"
proof -
  have pos: "0 < Y" using Yc by (elim disjE) simp_all
  have "ms1 * 67600 \<le> ms2 * 67600" using lt by simp
  then have le: "k1 \<le> k2" unfolding k1_def k2_def using pos by (intro zdiv_mono1) simp_all
  show ?thesis
  proof (cases "k1 = k2")
    case False
    then show ?thesis using le by simp
  next
    case True
    define S where "S = beatStartScaled Y k1"
    define o1 where "o1 = msOffset_grid Y ms1"
    define o2 where "o2 = msOffset_grid Y ms2"
    have b1: "1000000 * o1 \<le> ms1 * 1000000 - S" "ms1 * 1000000 - S < 1000000 * o1 + 1000000"
      unfolding o1_def msOffset_grid_def k1_def [symmetric] S_def by (rule div_bounds_int, simp)+
    have b2: "1000000 * o2 \<le> ms2 * 1000000 - S" "ms2 * 1000000 - S < 1000000 * o2 + 1000000"
      unfolding o2_def msOffset_grid_def k2_def [symmetric] True [symmetric] S_def
      by (rule div_bounds_int, simp)+
    have "ms1 + 1 \<le> ms2" using lt by simp
    then have "1000000 * o1 < 1000000 * o2" using b1(1) b2(2) by linarith
    then have "o1 < o2" by simp
    then show ?thesis using True by (simp add: o1_def o2_def)
  qed
qed

text \<open>
  Claim C3.  For two instants of the same year, a year that the format covers, the earlier
  one has the smaller canonical string in the order of JavaScript's string comparison, with
  both encoders.
\<close>

theorem canonical_sorts_chronologically:
  assumes v1: "valid_instant d1" and v2: "valid_instant d2"
    and same: "getUTCFullYear d1 = getUTCFullYear d2" and lt: "d1 < d2"
  shows "(\<exists>r1 r2. encode_grid d1 = Inr r1 \<and> encode_grid d2 = Inr r2
            \<and> str_less (canonical r1) (canonical r2))
       \<and> (\<exists>r1 r2. encode_lib d1 = Inr r1 \<and> encode_lib d2 = Inr r2
            \<and> str_less (canonical r1) (canonical r2))"
proof -
  define y where "y = getUTCFullYear d1"
  have y2: "getUTCFullYear d2 = y" using same by (simp add: y_def)
  define Y where "Y = yearTotalMs y"
  define ms1 where "ms1 = msSinceYearStart d1"
  define ms2 where "ms2 = msSinceYearStart d2"
  define k1 where "k1 = (ms1 * 67600) div Y"
  define k2 where "k2 = (ms2 * 67600) div Y"
  note r1 = valid_instant_range [OF v1]
  note r2 = valid_instant_range [OF v2]
  have y: "1000 \<le> y" "y \<le> 9999" using v1 by (simp_all add: valid_instant_def y_def)
  have Yc: "Y = 31536000000 \<or> Y = 31622400000" unfolding Y_def by (rule yearTotalMs_cases)
  have m1: "0 \<le> ms1" "ms1 < Y" using r1 by (simp_all add: ms1_def Y_def y_def)
  have m2: "0 \<le> ms2" "ms2 < Y" using r2 by (simp_all add: ms2_def Y_def y2)
  have mlt: "ms1 < ms2" using lt by (simp add: ms1_def ms2_def msSinceYearStart_def same)
  have kb1: "0 \<le> k1" "k1 < 67600" "Y * k1 \<le> ms1 * 67600" "ms1 * 67600 < Y * k1 + Y"
    unfolding k1_def by (rule grid_index_bounds [OF Yc m1])+
  have kb2: "0 \<le> k2" "k2 < 67600" "Y * k2 \<le> ms2 * 67600" "ms2 * 67600 < Y * k2 + Y"
    unfolding k2_def by (rule grid_index_bounds [OF Yc m2])+
  note dg1 = beat_digits_range [OF kb1(1,2)]
  note dg2 = beat_digits_range [OF kb2(1,2)]
  have o1: "0 \<le> msOffset_grid Y ms1" "msOffset_grid Y ms1 < 1000000"
    unfolding msOffset_grid_def k1_def [symmetric]
    by (rule grid_offset_bounds(2,3) [OF Yc kb1(1,3,4)])+
  have o2: "0 \<le> msOffset_grid Y ms2" "msOffset_grid Y ms2 < 1000000"
    unfolding msOffset_grid_def k2_def [symmetric]
    by (rule grid_offset_bounds(2,3) [OF Yc kb2(1,3,4)])+
  have pm: "k1 < k2 \<or> (k1 = k2 \<and> msOffset_grid Y ms1 < msOffset_grid Y ms2)"
    unfolding k1_def k2_def by (rule grid_position_mono [OF Yc mlt])
  have lex: "2600 * beat_period k1 + 260 * beat_arc k1 + 10 * beat_bar k1 + beat_digit k1
               < 2600 * beat_period k2 + 260 * beat_arc k2 + 10 * beat_bar k2 + beat_digit k2
             \<or> (beat_period k1 = beat_period k2 \<and> beat_arc k1 = beat_arc k2
                 \<and> beat_bar k1 = beat_bar k2 \<and> beat_digit k1 = beat_digit k2
                 \<and> msOffset_grid Y ms1 < msOffset_grid Y ms2)"
    using pm unfolding dg1(9) [symmetric] dg2(9) [symmetric] by auto
  have L: "str_less
      (canon_string y (beat_period k1) (beat_arc k1) (beat_bar k1) (beat_digit k1)
         (msOffset_grid Y ms1))
      (canon_string y (beat_period k2) (beat_arc k2) (beat_bar k2) (beat_digit k2)
         (msOffset_grid Y ms2))"
    by (rule canon_string_less [OF y dg1(1-8) o1 dg2(1-8) o2 lex])
  note Eg1 = encode_grid_eq [OF r1, folded y_def, folded Y_def, folded ms1_def, folded k1_def]
  note El1 = encode_lib_eq [OF r1, folded y_def, folded Y_def, folded ms1_def, folded k1_def]
  note Eg2 = encode_grid_eq [OF r2, unfolded y2, folded Y_def, folded ms2_def, folded k2_def]
  note El2 = encode_lib_eq [OF r2, unfolded y2, folded Y_def, folded ms2_def, folded k2_def]
  show ?thesis unfolding Eg1 El1 Eg2 El2 using L by simp
qed

lemma valid_instant_example2: "valid_instant 1749486600001"
  by (simp add: valid_instant_def getUTCFullYear_def Let_def DayFromYear_def msPerDay_def)

lemma same_year_example: "getUTCFullYear 1749486600000 = getUTCFullYear 1749486600001"
  by (simp add: getUTCFullYear_def Let_def DayFromYear_def msPerDay_def)

theorem canonical_sorts_chronologically_witness:
  "valid_instant 1749486600000 \<and> valid_instant 1749486600001
   \<and> getUTCFullYear 1749486600000 = getUTCFullYear 1749486600001
   \<and> (1749486600000::int) < 1749486600001
   \<and> (\<exists>r1 r2. encode_grid 1749486600000 = Inr r1 \<and> encode_grid 1749486600001 = Inr r2
         \<and> str_less (canonical r1) (canonical r2))
   \<and> (\<exists>r1 r2. encode_lib 1749486600000 = Inr r1 \<and> encode_lib 1749486600001 = Inr r2
         \<and> str_less (canonical r1) (canonical r2))"
  using canonical_sorts_chronologically [OF valid_instant_example valid_instant_example2
      same_year_example]
    valid_instant_example valid_instant_example2 same_year_example
  by simp

section \<open>The two codecs compared\<close>

lemma encoders_agree:
  assumes r: "0 \<le> msSinceYearStart d" "msSinceYearStart d < yearTotalMs (getUTCFullYear d)"
    and c: "Date_UTC (getUTCFullYear d) = Some (yearStart (getUTCFullYear d))"
  shows "\<exists>r r'. encode_grid d = Inr r \<and> encode_lib d = Inr r'
           \<and> canonical r' = canonical r \<and> year r' = year r \<and> period r' = period r
           \<and> arc r' = arc r \<and> bar r' = bar r \<and> beat r' = beat r
           \<and> msOffsetInBeat r' = msOffsetInBeat r \<and> periodLetter r' = periodLetter r
           \<and> barLetter r' = barLetter r \<and> readable r' = readable r
           \<and> arcStartMsInYear r' \<le> arcStartMsInYear r
           \<and> arcStartMsInYear r \<le> arcStartMsInYear r' + 1
           \<and> arcEndMsInYear r' \<le> arcEndMsInYear r
           \<and> arcEndMsInYear r \<le> arcEndMsInYear r' + 1"
proof -
  define y where "y = getUTCFullYear d"
  define Y where "Y = yearTotalMs y"
  define ms where "ms = msSinceYearStart d"
  define k where "k = (ms * 67600) div Y"
  have Yc: "Y = 31536000000 \<or> Y = 31622400000" unfolding Y_def by (rule yearTotalMs_cases)
  have ms: "0 \<le> ms" "ms < Y" using r by (simp_all add: ms_def Y_def y_def)
  have kb: "0 \<le> k" "k < 67600"
    unfolding k_def by (rule grid_index_bounds(1,2) [OF Yc ms])+
  note dg = beat_digits_range [OF kb(1,2)]
  define p a where "p = beat_period k" and "a = beat_arc k"
  note dg' = dg(1-4) [folded p_def a_def]
  have a10: "a \<le> 10" "0 \<le> a + 1" "a + 1 \<le> 10" using dg'(3,4) by simp_all
  have z: "(0::int) \<le> 0" "(0::int) \<le> 25" "(0::int) \<le> 9" by simp_all
  have k1: "2600 * p + 260 * a + 10 * 0 + 0 = p * 2600 + a * 260" by simp
  have k2: "2600 * p + 260 * (a + 1) + 10 * 0 + 0 = p * 2600 + a * 260 + 260" by simp
  have u1: "unitsScaled_lib Y p a 0 0 = p * periodSizeScaled Y + a * arcSizeScaled Y"
    by (simp add: unitsScaled_lib_def)
  have u2: "unitsScaled_lib Y p (a + 1) 0 0
              = p * periodSizeScaled Y + a * arcSizeScaled Y + arcSizeScaled Y"
    by (simp add: unitsScaled_lib_def algebra_simps)
  note c1 = lib_units_close [OF Yc dg'(1,2,3) a10(1) z(1,2,1,3), unfolded k1 u1]
  note c2 = lib_units_close [OF Yc dg'(1,2) a10(2,3) z(1,2,1,3), unfolded k2 u2]
  have d1: "(p * periodSizeScaled Y + a * arcSizeScaled Y) div 1000000
              \<le> beatStartScaled Y (p * 2600 + a * 260) div 1000000"
    "beatStartScaled Y (p * 2600 + a * 260) div 1000000
              \<le> (p * periodSizeScaled Y + a * arcSizeScaled Y) div 1000000 + 1"
    using div_close [OF c1, of 0] by simp_all
  have d2: "(p * periodSizeScaled Y + a * arcSizeScaled Y + arcSizeScaled Y) div 1000000
              \<le> beatStartScaled Y (p * 2600 + a * 260 + 260) div 1000000"
    "beatStartScaled Y (p * 2600 + a * 260 + 260) div 1000000
              \<le> (p * periodSizeScaled Y + a * arcSizeScaled Y + arcSizeScaled Y) div 1000000 + 1"
    using div_close [OF c2, of 0] by simp_all
  note Eg = encode_grid_eq [OF r c, folded y_def, folded Y_def, folded ms_def, folded k_def,
      folded p_def a_def]
  note El = encode_lib_eq [OF r c, folded y_def, folded Y_def, folded ms_def, folded k_def,
      folded p_def a_def]
  show ?thesis unfolding Eg El using d1 d2 by simp
qed

lemma decoders_within_1ms:
  assumes "regex_match canonical_regex s"
  shows "\<exists>t t'. decode_grid s = Inr (Some t) \<and> decode_lib s = Inr (Some t')
           \<and> t' \<le> t \<and> t \<le> t' + 1"
proof -
  from decode_fields [OF assms] obtain y p a b t off where
    r: "0 \<le> p" "p \<le> 25" "0 \<le> a" "a \<le> 9" "0 \<le> b" "b \<le> 25" "0 \<le> t" "t \<le> 9" and
    G: "decode_grid s =
          Inr (Some (yearStart y + (beatStartScaled (yearTotalMs y)
                               (2600 * p + 260 * a + 10 * b + t) + off * 1000000) div 1000000))" and
    L: "decode_lib s =
          Inr (Some (yearStart y + (unitsScaled_lib (yearTotalMs y) p a b t + off * 1000000)
                              div 1000000))"
    by blast
  have a10: "a \<le> 10" using r(4) by simp
  note c = lib_units_close [OF yearTotalMs_cases [of y] r(1,2,3) a10 r(5-8)]
  note d = div_close [OF c, of off]
  show ?thesis unfolding G L using d by simp
qed


lemma decode_grid_aligned: "decode_grid ''2025_A0Q9_000000'' = Inr (Some 1735768440000)"
  by (simp add: decode_grid_def codec_eval)

lemma decode_lib_aligned: "decode_lib ''2025_A0Q9_000000'' = Inr (Some 1735768439999)"
  by (simp add: decode_lib_def codec_eval)

lemma encode_grid_arc_start:
  "map_sum id arcStartMsInYear (encode_grid 1737266400000) = Inr 1576800000"
  by (simp add: encode_grid_def codec_eval)

lemma encode_lib_arc_start:
  "map_sum id arcStartMsInYear (encode_lib 1737266400000) = Inr 1576799999"
  by (simp add: encode_lib_def codec_eval)

text \<open>
  Claim C2.  The two codecs are not equivalent.  For the string \<^verbatim>\<open>2025_A0Q9_000000\<close> the
  grid decoder returns 2025-01-01T21:54:00.000Z, one 400th of the year 2025 after its start;
  the cascade decoder returns the millisecond before it.  The start of the arc \<^verbatim>\<open>B3\<close> of 2025 is 1576800000 ms
  into the year for the grid encoder and 1576799999 ms for the cascade encoder.
\<close>

theorem decoders_differ:
  "regex_match canonical_regex ''2025_A0Q9_000000''
   \<and> decode_grid ''2025_A0Q9_000000'' = Inr (Some 1735768440000)
   \<and> decode_lib ''2025_A0Q9_000000'' = Inr (Some 1735768439999)
   \<and> map_sum id arcStartMsInYear (encode_grid 1737266400000) = Inr 1576800000
   \<and> map_sum id arcStartMsInYear (encode_lib 1737266400000) = Inr 1576799999"
  unfolding decode_grid_aligned decode_lib_aligned encode_grid_arc_start encode_lib_arc_start
  by (simp add: canonical_regex_def)

section \<open>Exact round trips\<close>

lemma decode_encode_grid_eq:
  assumes "valid_instant d"
  shows "decode_encode_grid d =
           Inr (Some (d - (if beatStartScaled (yearTotalMs (getUTCFullYear d))
                          ((msSinceYearStart d * 67600) div yearTotalMs (getUTCFullYear d))
                        mod 1000000 = 0 then 0 else 1)))"
proof -
  from round_trip_grid [OF assms] obtain r where
    "encode_grid d = Inr r" and
    "decode_grid (canonical r) = Inr (Some (d - (if beatStartScaled (yearTotalMs (getUTCFullYear d))
        ((msSinceYearStart d * 67600) div yearTotalMs (getUTCFullYear d)) mod 1000000 = 0
        then 0 else 1)))"
    by blast
  then show ?thesis by (simp add: decode_encode_grid_def)
qed

lemma totalBeatIndex_div:
  assumes "valid_instant d"
  shows "totalBeatIndex d = (msSinceYearStart d * 67600) div yearTotalMs (getUTCFullYear d)"
proof -
  note r = valid_instant_range [OF assms]
  have "0 \<le> msSinceYearStart d * 67600" using r(1) by simp
  moreover have "0 < yearTotalMs (getUTCFullYear d)" by (simp add: yearTotalMs_def)
  ultimately show ?thesis unfolding totalBeatIndex_def by (rule sdiv_nonneg)
qed

lemma aligned_beat_index:
  fixes Y ms :: int
  assumes Yc: "Y = 31536000000 \<or> Y = 31622400000" and al: "ms mod (Y div 400) = 0"
  shows "((ms * 67600) div Y) mod 169 = 0"
proof -
  define Y' where "Y' = Y div 400"
  have YY: "Y = 400 * Y'" using Yc unfolding Y'_def by (elim disjE) simp_all
  have pos: "0 < Y" using Yc by (elim disjE) simp_all
  from al obtain j where j: "ms = Y' * j" unfolding Y'_def [symmetric] by (auto simp: mod_eq_0_iff_dvd)
  have e: "ms * 67600 = Y * (169 * j)" unfolding j YY by simp
  have "Y \<noteq> 0" using pos by simp
  then have "(ms * 67600) div Y = 169 * j" unfolding e by (rule nonzero_mult_div_cancel_left)
  then show ?thesis by simp
qed

text \<open>
  Claim C6, as amended.  In the beat-grid codec, the round trip of an instant of a year that
  the format covers is exact precisely when the beat index of the instant is a multiple of
  169, and falls one millisecond short otherwise.  The instants at the multiples of one 400th
  of the year are among the exact ones.
\<close>

theorem round_trip_exact_iff:
  assumes "valid_instant d"
  shows "(decode_encode_grid d = Inr (Some d) \<longleftrightarrow> totalBeatIndex d mod 169 = 0)
       \<and> (totalBeatIndex d mod 169 \<noteq> 0 \<longrightarrow> decode_encode_grid d = Inr (Some (d - 1)))
       \<and> (msSinceYearStart d mod (yearTotalMs (getUTCFullYear d) div 400) = 0
            \<longrightarrow> decode_encode_grid d = Inr (Some d))"
proof -
  define Y where "Y = yearTotalMs (getUTCFullYear d)"
  define k where "k = (msSinceYearStart d * 67600) div Y"
  have Yc: "Y = 31536000000 \<or> Y = 31622400000" unfolding Y_def by (rule yearTotalMs_cases)
  have T: "totalBeatIndex d = k" unfolding k_def Y_def by (rule totalBeatIndex_div [OF assms])
  have W: "(beatStartScaled Y k mod 1000000 = 0) = (k mod 169 = 0)"
    by (rule beatStartScaled_whole [OF Yc])
  have E: "decode_encode_grid d = Inr (Some (d - (if k mod 169 = 0 then 0 else 1)))"
    using decode_encode_grid_eq [OF assms] unfolding Y_def [symmetric] k_def [symmetric] W .
  have A: "msSinceYearStart d mod (Y div 400) = 0 \<Longrightarrow> k mod 169 = 0"
    unfolding k_def by (rule aligned_beat_index [OF Yc])
  show ?thesis unfolding T E Y_def [symmetric] using A by auto
qed

lemma valid_instant_example3: "valid_instant 1735768440000"
  by (simp add: valid_instant_def getUTCFullYear_def Let_def DayFromYear_def msPerDay_def)

lemma aligned_example:
  "msSinceYearStart 1735768440000 mod (yearTotalMs (getUTCFullYear 1735768440000) div 400) = 0"
  by (simp add: msSinceYearStart_def yearTotalMs_def isLeap_def getUTCFullYear_def Let_def
      DayFromYear_def msPerDay_def yearStart_def TimeFromYear_def)

theorem round_trip_exact_iff_witness:
  "valid_instant 1735768440000
   \<and> msSinceYearStart 1735768440000 mod (yearTotalMs (getUTCFullYear 1735768440000) div 400) = 0
   \<and> decode_encode_grid 1735768440000 = Inr (Some 1735768440000)
   \<and> totalBeatIndex 1735768440000 mod 169 = 0"
  using round_trip_exact_iff [OF valid_instant_example3] valid_instant_example3 aligned_example
  by blast

lemma valid_instant_example4: "valid_instant 1735689600001"
  by (simp add: valid_instant_def getUTCFullYear_def Let_def DayFromYear_def msPerDay_def)

lemma decode_encode_lib_eq:
  assumes "valid_instant d"
  shows "decode_encode_lib d =
           Inr (Some (d - (if beatStartScaled_lib (yearTotalMs (getUTCFullYear d))
                          ((msSinceYearStart d * 67600) div yearTotalMs (getUTCFullYear d))
                        mod 1000000 = 0 then 0 else 1)))"
proof -
  from round_trip_lib [OF assms] obtain r where
    "encode_lib d = Inr r" and
    "decode_lib (canonical r) = Inr (Some (d - (if beatStartScaled_lib (yearTotalMs (getUTCFullYear d))
        ((msSinceYearStart d * 67600) div yearTotalMs (getUTCFullYear d)) mod 1000000 = 0
        then 0 else 1)))"
    by blast
  then show ?thesis by (simp add: decode_encode_lib_def)
qed

lemma year_offset_example:
  "msSinceYearStart 1735689600001 = 1" "yearTotalMs (getUTCFullYear 1735689600001) = 31536000000"
  by (simp_all add: msSinceYearStart_def yearTotalMs_def isLeap_def getUTCFullYear_def Let_def
      DayFromYear_def msPerDay_def yearStart_def TimeFromYear_def)

lemma decode_encode_grid_example: "decode_encode_grid 1735689600001 = Inr (Some 1735689600001)"
  unfolding decode_encode_grid_eq [OF valid_instant_example4] year_offset_example
  by (simp add: beatStartScaled_0)

lemma decode_encode_lib_example: "decode_encode_lib 1735689600001 = Inr (Some 1735689600001)"
  unfolding decode_encode_lib_eq [OF valid_instant_example4] year_offset_example
  by (simp add: beatStartScaled_lib_def unitsScaled_lib_def beat_period_def beat_arc_def
      beat_bar_def beat_digit_def)

text \<open>
  Claim C6 as stated fails: the instant one millisecond after the start of 2025 is not a
  multiple of one 400th of the year (78840000 ms), and its round trip is exact in both codecs.
\<close>

theorem exact_round_trip_off_the_400:
  "valid_instant 1735689600001
   \<and> msSinceYearStart 1735689600001 = 1
   \<and> yearTotalMs (getUTCFullYear 1735689600001) div 400 = 78840000
   \<and> msSinceYearStart 1735689600001 mod (yearTotalMs (getUTCFullYear 1735689600001) div 400) \<noteq> 0
   \<and> decode_encode_grid 1735689600001 = Inr (Some 1735689600001)
   \<and> decode_encode_lib 1735689600001 = Inr (Some 1735689600001)"
  unfolding decode_encode_grid_example decode_encode_lib_example year_offset_example
  using valid_instant_example4 by simp

end
